theory Spec2Isabelle
  imports Main
begin

section \<open>Paths: the operations of Go's path/filepath that resolve.go calls\<close>

text \<open>
  resolve.go works on slash-separated path strings through \<open>filepath.Clean\<close>,
  \<open>filepath.Join\<close>, \<open>filepath.Base\<close>, \<open>filepath.Dir\<close> and \<open>strings.HasPrefix\<close>.
  They are modelled on \<open>string\<close> with the POSIX separator. \<open>Clean\<close> works on the
  path elements between the slashes: empty elements and \<open>.\<close> are dropped, \<open>..\<close> removes
  the element before it, is dropped at the root, and is kept at the front of a relative path.
\<close>

fun split_slash :: "string \<Rightarrow> string list" where
  "split_slash [] = [[]]"
| "split_slash (c # cs) =
     (if c = CHR ''/'' then [] # split_slash cs
      else (case split_slash cs of [] \<Rightarrow> [[c]] | x # xs \<Rightarrow> (c # x) # xs))"

fun join_slash :: "string list \<Rightarrow> string" where
  "join_slash [] = []"
| "join_slash [x] = x"
| "join_slash (x # y # ys) = x @ CHR ''/'' # join_slash (y # ys)"

text \<open>One element of the input, against the output written so far (last element first).\<close>

definition clean_step :: "bool \<Rightarrow> string list \<Rightarrow> string \<Rightarrow> string list" where
  "clean_step rooted out el =
     (if el = [] \<or> el = ''.'' then out
      else if el = ''..'' then
        (case out of
           [] \<Rightarrow> (if rooted then [] else [''..''])
         | prev # below \<Rightarrow> (if prev = ''..'' then ''..'' # out else below))
      else el # out)"

definition Clean :: "string \<Rightarrow> string" where
  "Clean path =
     (if path = [] then ''.''
      else
        (let rooted = (hd path = CHR ''/'');
             out = rev (foldl (clean_step rooted) [] (split_slash path))
         in if rooted then CHR ''/'' # join_slash out
            else if out = [] then ''.''
            else join_slash out))"

text \<open>\<open>filepath.Join\<close> of two elements: empty elements are ignored, the rest is cleaned.\<close>

definition Join :: "string \<Rightarrow> string \<Rightarrow> string" where
  "Join a b =
     (if a \<noteq> [] then Clean (a @ CHR ''/'' # b)
      else if b \<noteq> [] then Clean b
      else [])"

definition strip_slashes :: "string \<Rightarrow> string" where
  "strip_slashes path = rev (dropWhile (\<lambda>c. c = CHR ''/'') (rev path))"

definition Base :: "string \<Rightarrow> string" where
  "Base path =
     (if path = [] then ''.''
      else
        (let p = strip_slashes path;
             el = rev (takeWhile (\<lambda>c. c \<noteq> CHR ''/'') (rev p))
         in if p = [] then ''/'' else el))"

text \<open>The part of a path up to and including its last slash.\<close>

definition dir_part :: "string \<Rightarrow> string" where
  "dir_part path = rev (dropWhile (\<lambda>c. c \<noteq> CHR ''/'') (rev path))"

definition Dir :: "string \<Rightarrow> string" where
  "Dir path = Clean (dir_part path)"

definition HasPrefix :: "string \<Rightarrow> string \<Rightarrow> bool" where
  "HasPrefix s pre = (take (length pre) s = pre)"

subsection \<open>Facts about the path operations\<close>

text \<open>
  \<open>Clean\<close> never returns the empty string and never lengthens a non-empty path; so
  \<open>Dir\<close>, applied again and again, reaches a fixed point. The ascent of
  \<open>loadNodeModules\<close> rests on this.
\<close>

lemma split_slash_nonempty: "split_slash s \<noteq> []"
  by (induction s) (auto split: list.splits)

lemma split_slash_weight: "sum_list (map (\<lambda>x. Suc (length x)) (split_slash s)) = Suc (length s)"
  by (induction s) (auto split: list.splits simp: split_slash_nonempty)

lemma split_slash_snoc: "split_slash (s @ ''/'') = split_slash s @ [[]]"
  by (induction s) (auto split: list.splits simp: split_slash_nonempty)

lemma join_slash_length:
  "xs \<noteq> [] \<Longrightarrow> Suc (length (join_slash xs)) = sum_list (map (\<lambda>x. Suc (length x)) xs)"
  by (induction xs rule: join_slash.induct) auto

lemma clean_step_weight:
  "sum_list (map (\<lambda>x. Suc (length x)) (clean_step r out el))
     \<le> sum_list (map (\<lambda>x. Suc (length x)) out) + Suc (length el)"
  by (auto simp: clean_step_def split: list.splits)

lemma foldl_clean_step_weight:
  "sum_list (map (\<lambda>x. Suc (length x)) (foldl (clean_step r) out els))
     \<le> sum_list (map (\<lambda>x. Suc (length x)) out) + sum_list (map (\<lambda>x. Suc (length x)) els)"
proof (induction els arbitrary: out)
  case Nil
  then show ?case by simp
next
  case (Cons el els)
  have "sum_list (map (\<lambda>x. Suc (length x)) (foldl (clean_step r) (clean_step r out el) els))
      \<le> sum_list (map (\<lambda>x. Suc (length x)) (clean_step r out el))
        + sum_list (map (\<lambda>x. Suc (length x)) els)"
    by (rule Cons.IH)
  also have "\<dots> \<le> sum_list (map (\<lambda>x. Suc (length x)) out) + Suc (length el)
        + sum_list (map (\<lambda>x. Suc (length x)) els)"
    using clean_step_weight [of r out el] by simp
  finally show ?case by simp
qed

lemma clean_step_no_empty: "[] \<notin> set out \<Longrightarrow> [] \<notin> set (clean_step r out el)"
  by (auto simp: clean_step_def split: list.splits)

lemma foldl_clean_step_no_empty:
  "[] \<notin> set out \<Longrightarrow> [] \<notin> set (foldl (clean_step r) out els)"
  by (induction els arbitrary: out) (simp_all add: clean_step_no_empty)

lemma join_slash_nonempty: "xs \<noteq> [] \<Longrightarrow> [] \<notin> set xs \<Longrightarrow> join_slash xs \<noteq> []"
  by (induction xs rule: join_slash.induct) auto

lemma Clean_nonempty: "Clean p \<noteq> []"
proof -
  have "[] \<notin> set (rev (foldl (clean_step False) [] (split_slash p)))"
    using foldl_clean_step_no_empty [of "[]" False "split_slash p"] by simp
  then have "join_slash (rev (foldl (clean_step False) [] (split_slash p))) \<noteq> []"
    if "foldl (clean_step False) [] (split_slash p) \<noteq> []"
    using that by (intro join_slash_nonempty) simp_all
  then show ?thesis
    by (auto simp: Clean_def Let_def)
qed

lemma Clean_length: 
  assumes "p \<noteq> []" shows "length (Clean p) \<le> length p"
proof (cases "hd p = CHR ''/''")
  case True
  then obtain t where p: "p = CHR ''/'' # t" using assms by (cases p) auto
  define out where "out = foldl (clean_step True) [] (split_slash t)"
  have w: "sum_list (map (\<lambda>x. Suc (length x)) out) \<le> Suc (length t)"
    using foldl_clean_step_weight [of True "[]" "split_slash t"]
    by (simp add: out_def split_slash_weight)
  have c: "Clean p = CHR ''/'' # join_slash (rev out)"
    by (simp add: Clean_def p out_def clean_step_def)
  show ?thesis
  proof (cases "out = []")
    case True
    then show ?thesis using c p by simp
  next
    case False
    then have "Suc (length (join_slash (rev out))) = sum_list (map (\<lambda>x. Suc (length x)) (rev out))"
      by (intro join_slash_length) simp
    also have "\<dots> = sum_list (map (\<lambda>x. Suc (length x)) out)"
      by (simp add: rev_map [symmetric])
    finally show ?thesis using w c p by simp
  qed
next
  case False
  define out where "out = foldl (clean_step False) [] (split_slash p)"
  have w: "sum_list (map (\<lambda>x. Suc (length x)) out) \<le> Suc (length p)"
    using foldl_clean_step_weight [of False "[]" "split_slash p"]
    by (simp add: out_def split_slash_weight)
  show ?thesis
  proof (cases "out = []")
    case True
    then show ?thesis using assms False by (cases p) (auto simp: Clean_def out_def Let_def)
  next
    case nonempty: False
    then have "Suc (length (join_slash (rev out))) = sum_list (map (\<lambda>x. Suc (length x)) (rev out))"
      by (intro join_slash_length) simp
    also have "\<dots> = sum_list (map (\<lambda>x. Suc (length x)) out)"
      by (simp add: rev_map [symmetric])
    finally have "length (join_slash (rev out)) \<le> length p" using w by simp
    moreover have "Clean p = join_slash (rev out)"
      using assms False nonempty by (simp add: Clean_def out_def Let_def)
    ultimately show ?thesis by simp
  qed
qed

lemma Clean_snoc_slash:
  assumes "s \<noteq> []" shows "Clean (s @ ''/'') = Clean s"
proof -
  have "hd (s @ ''/'') = hd s" using assms by simp
  moreover have "foldl (clean_step r) [] (split_slash (s @ ''/'')) = foldl (clean_step r) [] (split_slash s)" for r
    by (simp add: split_slash_snoc clean_step_def)
  ultimately show ?thesis using assms by (simp add: Clean_def)
qed

definition dir_measure :: "string \<Rightarrow> nat" where
  "dir_measure s = (if s = ''.'' then 0 else Suc (length s))"

lemma dir_part_cases:
  "dir_part s = [] \<or> (\<exists>d r. dir_part s = d @ ''/'' \<and> s = d @ ''/'' @ r)"
proof (cases "dropWhile (\<lambda>c. c \<noteq> CHR ''/'') (rev s)")
  case Nil
  then show ?thesis by (simp add: dir_part_def)
next
  case (Cons c cs)
  then have "c = CHR ''/''"
    using hd_dropWhile [of "\<lambda>c. c \<noteq> CHR ''/''" "rev s"] by auto
  moreover have "s = rev (dropWhile (\<lambda>c. c \<noteq> CHR ''/'') (rev s))
                   @ rev (takeWhile (\<lambda>c. c \<noteq> CHR ''/'') (rev s))"
    by (metis rev_append rev_rev_ident takeWhile_dropWhile_id)
  ultimately show ?thesis using Cons by (auto simp: dir_part_def)
qed

lemma Dir_decreases:
  assumes "Dir s \<noteq> s" shows "dir_measure (Dir s) < dir_measure s"
proof (cases "Dir s = ''.''")
  case True
  then show ?thesis using assms by (auto simp: dir_measure_def)
next
  case False
  from dir_part_cases [of s] show ?thesis
  proof
    assume "dir_part s = []"
    then show ?thesis using False by (simp add: Dir_def Clean_def)
  next
    assume "\<exists>d r. dir_part s = d @ ''/'' \<and> s = d @ ''/'' @ r"
    then obtain d r where d: "dir_part s = d @ ''/''" and s: "s = d @ ''/'' @ r" by blast
    show ?thesis
    proof (cases "d = []")
      case True
      then have "Dir s = ''/''" using d by (simp add: Dir_def Clean_def clean_step_def)
      moreover have "r \<noteq> []" using assms calculation s True by auto
      ultimately show ?thesis using s True
        by (auto simp: dir_measure_def)
    next
      case nonempty: False
      then have "Dir s = Clean d" using d by (simp add: Dir_def Clean_snoc_slash)
      then have "length (Dir s) \<le> length d" using Clean_length [OF nonempty] by simp
      moreover have "length d < length s" using s by simp
      moreover have "s \<noteq> ''.''" using s nonempty by (cases d) auto
      ultimately show ?thesis by (simp add: dir_measure_def)
    qed
  qed
qed

section \<open>The runtime state and the collaborators of the resolver\<close>

text \<open>
  A module handle is a \<open>*js.Object\<close>: a reference into the interpreter's heap. The heap
  maps a reference to the object's properties. Values are kept to what the resolver and the
  module bodies below exchange.
\<close>

type_synonym obj = nat

datatype val = VUndefined | VNum int | VRef obj

datatype error =
    IllegalModuleNameError
  | InvalidModuleError
  | SourceError string
  | Exception string

text \<open>
  The statements of a module body or of a native loader, as far as they touch the resolver:
  \<open>require(s);\<close>, \<open>try { require(s) } catch (e) {}\<close>, \<open>exports.k = require(s);\<close>,
  \<open>exports.k = v;\<close> and \<open>throw new Error(msg);\<close>.
\<close>

datatype stmt =
    Require string
  | TryRequire string
  | ExportRequire string string
  | SetExport string val
  | Throw string

text \<open>
  What \<open>RunProgram\<close> makes of a compiled source: an error, a value that is not a function,
  or the module function with its body.
\<close>

datatype program = RunError string | NotAFunction | Function "stmt list"

text \<open>
  A native loader is Go code that is handed the runtime and the module object. Through the
  runtime it assigns properties of the module's \<open>exports\<close>, calls \<open>require\<close> and raises
  exceptions; these actions are written with the statements of a module body.
\<close>

type_synonym loader = "stmt list"

text \<open>
  The log records each call of a module function and of a native loader, with the handle
  it ran for: the claims count these calls.
\<close>

datatype event = Executed string obj | NativeLoaded string obj

text \<open>
  The collaborators (the \<open>Registry\<close> behind \<open>r.r\<close>, the package-level table \<open>native\<close>
  and \<open>json.Unmarshal\<close> into \<open>struct { Main string }\<close>): \<open>None\<close> is a returned error,
  respectively an absent loader.
\<close>

record env =
  getCompiledSource :: "string \<Rightarrow> program option"
  getSource :: "string \<Rightarrow> string option"
  unmarshalMain :: "string \<Rightarrow> string option"
  nativeLocal :: "string \<Rightarrow> loader option"
  nativeGlobal :: "string \<Rightarrow> loader option"
  globalFolders :: "string list"

record state =
  modules :: "string \<Rightarrow> obj option"
  nodeModules :: "string \<Rightarrow> obj option"
  objects :: "obj \<Rightarrow> (string \<Rightarrow> val option) option"
  nextObj :: nat
  events :: "event list"

definition init_state :: state where
  "init_state =
     \<lparr>modules = Map.empty, nodeModules = Map.empty, objects = Map.empty,
      nextObj = 0, events = []\<rparr>"

definition NewObject :: "state \<Rightarrow> obj \<times> state" where
  "NewObject s =
     (nextObj s, s\<lparr>objects := (objects s)(nextObj s \<mapsto> Map.empty), nextObj := Suc (nextObj s)\<rparr>)"

definition SetProp :: "obj \<Rightarrow> string \<Rightarrow> val \<Rightarrow> state \<Rightarrow> state" where
  "SetProp r k v s =
     (case objects s r of
        None \<Rightarrow> s
      | Some ps \<Rightarrow> s\<lparr>objects := (objects s)(r \<mapsto> ps(k \<mapsto> v))\<rparr>)"

definition GetProp :: "state \<Rightarrow> obj \<Rightarrow> string \<Rightarrow> val" where
  "GetProp s r k =
     (case objects s r of
        None \<Rightarrow> VUndefined
      | Some ps \<Rightarrow> (case ps k of None \<Rightarrow> VUndefined | Some v \<Rightarrow> v))"

text \<open>
  Results: \<open>Inl\<close> is the returned error, \<open>Inr\<close> the module; the state is the runtime after
  the call. Functions that run module bodies return \<open>None\<close> when the nesting of requires
  exceeds the depth they were given (see \<open>run_module\<close>).
\<close>

type_synonym outcome = "((error + obj) \<times> state) option"

type_synonym runner = "string \<Rightarrow> obj \<Rightarrow> state \<Rightarrow> (error option \<times> state) option"

type_synonym requirer = "string list \<Rightarrow> string \<Rightarrow> state \<Rightarrow> outcome"

text \<open>
  A Go function that calls a native loader either returns or is left by the panic of the
  loader, with the exception that was raised.
\<close>

datatype 'a completion = Returns 'a | Panics error

section \<open>resolve.go\<close>

definition createModuleObject :: "state \<Rightarrow> obj \<times> state" where
  "createModuleObject s =
     (let (module, s1) = NewObject s;
          (exports, s2) = NewObject s1
      in (module, SetProp module ''exports'' (VRef exports) s2))"

text \<open>
  \<open>getCurrentModulePath\<close>: \<open>frames\<close> are the source names of the frames that
  \<open>CaptureCallStack(2, ...)\<close> returns, the most recent first.
\<close>

definition getCurrentModulePath :: "string list \<Rightarrow> string" where
  "getCurrentModulePath frames =
     (if length frames < 2 then ''.'' else Dir (frames ! 1))"

subsection \<open>Running a module\<close>

definition assign_export :: "val \<Rightarrow> string \<Rightarrow> val \<Rightarrow> state \<Rightarrow> (error option \<times> state) option" where
  "assign_export jsExports k v s =
     (case jsExports of
        VRef e \<Rightarrow> Some (None, SetProp e k v s)
      | _ \<Rightarrow> Some (Some (Exception ''TypeError''), s))"

text \<open>
  Modelled from the spec: the \<open>require\<close> function that \<open>loadModuleFile\<close> hands to the
  module body is defined outside resolve.go. By the spec it resolves the specifier relative
  to the calling module, returns the \<open>exports\<close> of the module \<open>resolve\<close> yields, and raises
  the error of a failed resolve in the caller. The frames a require called from the body of
  the module compiled from \<open>path\<close> sees are the native \<open>require\<close> itself, then the module
  function, whose source name is \<open>path\<close>.
\<close>

definition body_frames :: "string \<Rightarrow> string list" where
  "body_frames path = [''<native>'', path]"

fun exec_stmt :: "requirer \<Rightarrow> string list \<Rightarrow> val \<Rightarrow> stmt \<Rightarrow> state \<Rightarrow> (error option \<times> state) option" where
  "exec_stmt req frames jsExports (Require spec) s =
     (case req frames spec s of
        None \<Rightarrow> None
      | Some (Inl err, s') \<Rightarrow> Some (Some err, s')
      | Some (Inr m, s') \<Rightarrow> Some (None, s'))"
| "exec_stmt req frames jsExports (TryRequire spec) s =
     (case req frames spec s of
        None \<Rightarrow> None
      | Some (r, s') \<Rightarrow> Some (None, s'))"
| "exec_stmt req frames jsExports (ExportRequire k spec) s =
     (case req frames spec s of
        None \<Rightarrow> None
      | Some (Inl err, s') \<Rightarrow> Some (Some err, s')
      | Some (Inr m, s') \<Rightarrow> assign_export jsExports k (GetProp s' m ''exports'') s')"
| "exec_stmt req frames jsExports (SetExport k v) s = assign_export jsExports k v s"
| "exec_stmt req frames jsExports (Throw msg) s = Some (Some (Exception msg), s)"

fun call :: "requirer \<Rightarrow> string list \<Rightarrow> val \<Rightarrow> stmt list \<Rightarrow> state \<Rightarrow> (error option \<times> state) option" where
  "call req frames jsExports [] s = Some (None, s)"
| "call req frames jsExports (st # body) s =
     (case exec_stmt req frames jsExports st s of
        None \<Rightarrow> None
      | Some (Some err, s') \<Rightarrow> Some (Some err, s')
      | Some (None, s') \<Rightarrow> call req frames jsExports body s')"

definition loadModuleFile :: "env \<Rightarrow> requirer \<Rightarrow> runner" where
  "loadModuleFile env req path jsModule s =
     (case getCompiledSource env path of
        None \<Rightarrow> Some (Some (SourceError path), s)
      | Some (RunError msg) \<Rightarrow> Some (Some (Exception msg), s)
      | Some NotAFunction \<Rightarrow> Some (Some InvalidModuleError, s)
      | Some (Function body) \<Rightarrow>
          call req (body_frames path) (GetProp s jsModule ''exports'') body
            (s\<lparr>events := events s @ [Executed path jsModule]\<rparr>))"

definition loadModule :: "runner \<Rightarrow> string \<Rightarrow> state \<Rightarrow> outcome" where
  "loadModule run path s =
     (case modules s path of
        Some module \<Rightarrow> Some (Inr module, s)
      | None \<Rightarrow>
          (let (module, s1) = createModuleObject s;
               s2 = s1\<lparr>modules := (modules s1)(path \<mapsto> module)\<rparr>
           in case run path module s2 of
                None \<Rightarrow> None
              | Some (Some err, s3) \<Rightarrow> Some (Inl err, s3\<lparr>modules := (modules s3)(path := None)\<rparr>)
              | Some (None, s3) \<Rightarrow> Some (Inr module, s3)))"

subsection \<open>Files and directories\<close>

definition loadAsFile :: "runner \<Rightarrow> string \<Rightarrow> state \<Rightarrow> outcome" where
  "loadAsFile run path s =
     (case loadModule run path s of
        None \<Rightarrow> None
      | Some (Inr module, s1) \<Rightarrow> Some (Inr module, s1)
      | Some (Inl err1, s1) \<Rightarrow>
          (case loadModule run (path @ ''.js'') s1 of
             None \<Rightarrow> None
           | Some (Inr module, s2) \<Rightarrow> Some (Inr module, s2)
           | Some (Inl err2, s2) \<Rightarrow> loadModule run (path @ ''.json'') s2))"

definition loadIndex :: "runner \<Rightarrow> string \<Rightarrow> state \<Rightarrow> outcome" where
  "loadIndex run path s =
     (case loadModule run (Join path ''index.js'') s of
        None \<Rightarrow> None
      | Some (Inr module, s1) \<Rightarrow> Some (Inr module, s1)
      | Some (Inl err, s1) \<Rightarrow> loadModule run (Join path ''index.json'') s1)"

definition loadAsDirectory :: "env \<Rightarrow> runner \<Rightarrow> string \<Rightarrow> state \<Rightarrow> outcome" where
  "loadAsDirectory env run path s =
     (case getSource env (Join path ''package.json'') of
        None \<Rightarrow> loadIndex run path s
      | Some buf \<Rightarrow>
          (case unmarshalMain env buf of
             None \<Rightarrow> loadIndex run path s
           | Some main \<Rightarrow>
               if length main = 0 then loadIndex run path s
               else
                 (let m = Join path main
                  in case loadAsFile run m s of
                       None \<Rightarrow> None
                     | Some (Inr module, s1) \<Rightarrow> Some (Inr module, s1)
                     | Some (Inl err, s1) \<Rightarrow> loadIndex run m s1)))"

definition loadAsFileOrDirectory :: "env \<Rightarrow> runner \<Rightarrow> string \<Rightarrow> state \<Rightarrow> outcome" where
  "loadAsFileOrDirectory env run path s =
     (case loadAsFile run path s of
        None \<Rightarrow> None
      | Some (Inr module, s1) \<Rightarrow> Some (Inr module, s1)
      | Some (Inl err, s1) \<Rightarrow> loadAsDirectory env run path s1)"

subsection \<open>node_modules\<close>

definition loadNodeModule :: "env \<Rightarrow> runner \<Rightarrow> string \<Rightarrow> string \<Rightarrow> state \<Rightarrow> outcome" where
  "loadNodeModule env run path start s = loadAsFileOrDirectory env run (Join start path) s"

text \<open>
  The first loop of \<open>loadNodeModules\<close>, over \<open>r.r.globalFolders\<close>: \<open>Some module\<close> is its
  early return, \<open>None\<close> (inside) the loop running out.
\<close>

fun global_loop :: "env \<Rightarrow> runner \<Rightarrow> string \<Rightarrow> string list \<Rightarrow> state \<Rightarrow> (obj option \<times> state) option" where
  "global_loop env run path [] s = Some (None, s)"
| "global_loop env run path (dir # dirs) s =
     (case loadNodeModule env run path dir s of
        None \<Rightarrow> None
      | Some (Inr module, s1) \<Rightarrow> Some (Some module, s1)
      | Some (Inl err, s1) \<Rightarrow> global_loop env run path dirs s1)"

text \<open>The second loop, with the \<open>return nil, InvalidModuleError\<close> that follows it.\<close>

function ascent_loop :: "env \<Rightarrow> runner \<Rightarrow> string \<Rightarrow> string \<Rightarrow> state \<Rightarrow> outcome" where
  "ascent_loop env run path start s =
     (let p = (if Base start \<noteq> ''node_modules'' then Join start ''node_modules'' else start)
      in case loadNodeModule env run path p s of
           None \<Rightarrow> None
         | Some (Inr module, s1) \<Rightarrow> Some (Inr module, s1)
         | Some (Inl err, s1) \<Rightarrow>
             if start = ''..'' then Some (Inl InvalidModuleError, s1)
             else
               (let parent = Dir start
                in if parent = start then Some (Inl InvalidModuleError, s1)
                   else ascent_loop env run path parent s1))"
  by pat_completeness auto
termination
  by (relation "measure (\<lambda>(env, run, path, start, s). dir_measure start)")
     (auto simp: Dir_decreases)

definition loadNodeModules :: "env \<Rightarrow> runner \<Rightarrow> string \<Rightarrow> string \<Rightarrow> state \<Rightarrow> outcome" where
  "loadNodeModules env run path start s =
     (case global_loop env run path (globalFolders env) s of
        None \<Rightarrow> None
      | Some (Some module, s1) \<Rightarrow> Some (Inr module, s1)
      | Some (None, s1) \<Rightarrow> ascent_loop env run path start s1)"

subsection \<open>Native modules and resolve\<close>

text \<open>
  The call \<open>ldr(r.runtime, module)\<close>: the loader runs with the \<open>exports\<close> of the module
  and with \<open>require\<close>. A loader is Go code and pushes no frame of its own, so a require it
  calls sees the frames of the require that is loading the native module. \<open>Some err\<close> is
  the exception the loader raised; the module stays registered.
\<close>

definition call_loader ::
  "requirer \<Rightarrow> string list \<Rightarrow> loader \<Rightarrow> string \<Rightarrow> obj \<Rightarrow> state \<Rightarrow> (error option \<times> state) option" where
  "call_loader req frames ldr path module s =
     call req frames (GetProp s module ''exports'') ldr
       (s\<lparr>events := events s @ [NativeLoaded path module]\<rparr>)"

definition find_loader :: "env \<Rightarrow> string \<Rightarrow> loader option" where
  "find_loader env path =
     (case nativeLocal env path of
        Some ldr \<Rightarrow> Some ldr
      | None \<Rightarrow> nativeGlobal env path)"

definition loadNative ::
  "env \<Rightarrow> requirer \<Rightarrow> string list \<Rightarrow> string \<Rightarrow> state \<Rightarrow> ((error + obj) completion \<times> state) option" where
  "loadNative env req frames path s =
     (case modules s path of
        Some module \<Rightarrow> Some (Returns (Inr module), s)
      | None \<Rightarrow>
          (case find_loader env path of
             Some ldr \<Rightarrow>
               (let (module, s1) = createModuleObject s;
                    s2 = s1\<lparr>modules := (modules s1)(path \<mapsto> module)\<rparr>
                in case call_loader req frames ldr path module s2 of
                     None \<Rightarrow> None
                   | Some (Some err, s3) \<Rightarrow> Some (Panics err, s3)
                   | Some (None, s3) \<Rightarrow> Some (Returns (Inr module), s3))
           | None \<Rightarrow> Some (Returns (Inl InvalidModuleError), s)))"

text \<open>
  Modelled from the spec: \<open>filepathClean\<close> is a helper of the package that resolve.go calls
  and that is not in resolve.go; the spec says it normalizes the specifier, collapsing
  \<open>.\<close> and \<open>..\<close> segments. It is taken to be \<open>filepath.Clean\<close>.
\<close>

definition filepathClean :: "string \<Rightarrow> string" where
  "filepathClean p = Clean p"

text \<open>The test of \<open>resolve\<close> on the specifier as written.\<close>

definition is_path_specifier :: "string \<Rightarrow> bool" where
  "is_path_specifier origPath =
     (HasPrefix origPath ''./'' \<or> HasPrefix origPath ''/'' \<or> HasPrefix origPath ''../''
      \<or> origPath = ''.'' \<or> origPath = ''..'')"

text \<open>
  \<open>resolve\<close>, with \<open>run\<close> for \<open>r.loadModuleFile\<close> and \<open>req\<close> for the \<open>require\<close> a
  native loader may call. A panic of the loader leaves \<open>resolve\<close>; the caller of
  \<open>require\<close> sees it, like an error \<open>resolve\<close> returns, as an exception: both are \<open>Inl\<close>.
\<close>

definition resolve :: "env \<Rightarrow> runner \<Rightarrow> requirer \<Rightarrow> string list \<Rightarrow> string \<Rightarrow> state \<Rightarrow> outcome" where
  "resolve env run req frames origPath s =
     (let path = filepathClean origPath
      in if path = [] then Some (Inl IllegalModuleNameError, s)
         else
           (case loadNative env req frames path s of
              None \<Rightarrow> None
            | Some (Panics err, s1) \<Rightarrow> Some (Inl err, s1)
            | Some (Returns (Inr module), s1) \<Rightarrow> Some (Inr module, s1)
            | Some (Returns (Inl err0), s1) \<Rightarrow>
                (let start = (if HasPrefix origPath ''/'' then ''/''
                              else getCurrentModulePath frames);
                     p = Join start path
                 in if is_path_specifier origPath then
                      (case modules s1 p of
                         Some module \<Rightarrow> Some (Inr module, s1)
                       | None \<Rightarrow>
                           (case loadAsFileOrDirectory env run p s1 of
                              None \<Rightarrow> None
                            | Some (Inl err, s2) \<Rightarrow> Some (Inl err, s2)
                            | Some (Inr module, s2) \<Rightarrow>
                                Some (Inr module, s2\<lparr>modules := (modules s2)(p \<mapsto> module)\<rparr>)))
                    else
                      (case nodeModules s1 p of
                         Some module \<Rightarrow> Some (Inr module, s1)
                       | None \<Rightarrow>
                           (case loadNodeModules env run path start s1 of
                              None \<Rightarrow> None
                            | Some (Inl err, s2) \<Rightarrow> Some (Inl err, s2)
                            | Some (Inr module, s2) \<Rightarrow>
                                Some (Inr module,
                                      s2\<lparr>nodeModules := (nodeModules s2)(p \<mapsto> module)\<rparr>))))))"

subsection \<open>Nested requires\<close>

text \<open>
  A module body or a native loader calls \<open>require\<close>, which calls \<open>resolve\<close>, which may
  run another module body or loader. \<open>nested_require n\<close> is the \<open>require\<close> given to code
  that runs under a require whose nesting may still go \<open>n\<close> deep; at depth \<open>0\<close> it has no
  result. \<open>run_module n\<close> is \<open>loadModuleFile\<close> for module bodies whose requires nest at
  most \<open>n\<close> deep, and \<open>require_call n\<close> a require called from outside with that bound.
\<close>

primrec nested_require :: "nat \<Rightarrow> env \<Rightarrow> requirer" where
  "nested_require 0 env = (\<lambda>frames spec s. None)"
| "nested_require (Suc n) env =
     resolve env (loadModuleFile env (nested_require n env)) (nested_require n env)"

definition run_module :: "nat \<Rightarrow> env \<Rightarrow> runner" where
  "run_module n env = loadModuleFile env (nested_require n env)"

definition require_call :: "nat \<Rightarrow> env \<Rightarrow> requirer" where
  "require_call n env = resolve env (run_module n env) (nested_require n env)"

text \<open>A sequence of require calls, each with the frames of its caller; results are dropped.\<close>

fun require_seq :: "nat \<Rightarrow> env \<Rightarrow> (string list \<times> string) list \<Rightarrow> state \<Rightarrow> state option" where
  "require_seq n env [] s = Some s"
| "require_seq n env ((frames, spec) # reqs) s =
     (case require_call n env frames spec s of
        None \<Rightarrow> None
      | Some (r, s') \<Rightarrow> require_seq n env reqs s')"

section \<open>The search order, as the specification words it\<close>

text \<open>
  \<open>try_each\<close> runs a list of loads in order on the state each one leaves, returns the
  first that succeeds and runs none after it; when all fail it returns the last error.
\<close>

fun try_each :: "(state \<Rightarrow> outcome) list \<Rightarrow> error \<Rightarrow> state \<Rightarrow> outcome" where
  "try_each [] err s = Some (Inl err, s)"
| "try_each (f # fs) err s =
     (case f s of
        None \<Rightarrow> None
      | Some (Inr module, s1) \<Rightarrow> Some (Inr module, s1)
      | Some (Inl err1, s1) \<Rightarrow> try_each fs err1 s1)"

text \<open>The candidates of file loading, of index loading and of directory loading.\<close>

definition file_candidates :: "string \<Rightarrow> string list" where
  "file_candidates path = [path, path @ ''.js'', path @ ''.json'']"

definition index_candidates :: "string \<Rightarrow> string list" where
  "index_candidates path = [Join path ''index.js'', Join path ''index.json'']"

text \<open>
  The \<open>main\<close> of \<open>path/package.json\<close>: \<open>None\<close> when the file is absent, does not parse or
  has an empty \<open>main\<close>.
\<close>

definition manifest_main :: "env \<Rightarrow> string \<Rightarrow> string option" where
  "manifest_main env path =
     (case getSource env (Join path ''package.json'') of
        None \<Rightarrow> None
      | Some buf \<Rightarrow>
          (case unmarshalMain env buf of
             None \<Rightarrow> None
           | Some main \<Rightarrow> if main = [] then None else Some main))"

definition directory_candidates :: "env \<Rightarrow> string \<Rightarrow> string list" where
  "directory_candidates env path =
     (case manifest_main env path of
        None \<Rightarrow> index_candidates path
      | Some main \<Rightarrow> file_candidates (Join path main) @ index_candidates (Join path main))"

text \<open>
  The ascent: the candidate of a directory is the directory itself when its base name is
  \<open>node_modules\<close>; the walk goes to the parent until the directory is \<open>..\<close> or its own
  parent.
\<close>

definition node_modules_dir :: "string \<Rightarrow> string" where
  "node_modules_dir dir = (if Base dir = ''node_modules'' then dir else Join dir ''node_modules'')"

function ascent_dirs :: "string \<Rightarrow> string list" where
  "ascent_dirs dir =
     node_modules_dir dir #
       (if dir = ''..'' \<or> Dir dir = dir then [] else ascent_dirs (Dir dir))"
  by pat_completeness auto
termination
  by (relation "measure dir_measure") (auto simp: Dir_decreases)

declare ascent_dirs.simps [simp del]

declare ascent_loop.simps [simp del]

text \<open>The error \<open>loadNodeModules\<close> returns in place of the last candidate's.\<close>

definition not_found :: "outcome \<Rightarrow> outcome" where
  "not_found r =
     (case r of
        None \<Rightarrow> None
      | Some (Inl err, s) \<Rightarrow> Some (Inl InvalidModuleError, s)
      | Some (Inr module, s) \<Rightarrow> Some (Inr module, s))"

section \<open>The files a request tries\<close>

text \<open>
  The file paths a request tries, in order: for a relative or absolute specifier the
  candidates of the joined path, for a bare one those of every global folder and every
  directory of the ascent. A load whose source the provider does not have leaves both caches
  as they were.
\<close>

definition start_dir :: "string list \<Rightarrow> string \<Rightarrow> string" where
  "start_dir frames origPath =
     (if HasPrefix origPath ''/'' then ''/'' else getCurrentModulePath frames)"

definition path_candidates :: "env \<Rightarrow> string \<Rightarrow> string list" where
  "path_candidates env p = file_candidates p @ directory_candidates env p"

definition all_candidates :: "env \<Rightarrow> string list \<Rightarrow> string \<Rightarrow> string list" where
  "all_candidates env frames origPath =
     (if is_path_specifier origPath then
        path_candidates env (Join (start_dir frames origPath) (filepathClean origPath))
      else
        concat (map (\<lambda>dir. path_candidates env (Join dir (filepathClean origPath)))
          (globalFolders env @ ascent_dirs (start_dir frames origPath))))"

definition request_cached :: "state \<Rightarrow> string list \<Rightarrow> string \<Rightarrow> bool" where
  "request_cached s frames origPath =
     (let p = Join (start_dir frames origPath) (filepathClean origPath)
      in if is_path_specifier origPath then modules s p \<noteq> None else nodeModules s p \<noteq> None)"

text \<open>The key under which \<open>resolve\<close> caches a request: start directory joined with the cleaned specifier.\<close>

definition request_key :: "string list \<Rightarrow> string \<Rightarrow> string" where
  "request_key frames origPath = Join (start_dir frames origPath) (filepathClean origPath)"

section \<open>Relations between the state before and after a call\<close>

text \<open>
  Every function of resolve.go changes the state in a few elementary ways: it registers a new
  module object under a key, evicts the key of a failed load, logs a call, assigns a property,
  registers a native module, and stores the module a load returned under the key of the request.
  A relation that is reflexive, transitive and kept by these steps (\<open>step_closed\<close>) is kept
  by \<open>resolve\<close> and by every module body, whatever the nesting. \<open>cache_le\<close>, the growth of
  both caches, is such a relation.
\<close>

definition cache_le :: "state \<Rightarrow> state \<Rightarrow> bool" where
  "cache_le s t \<longleftrightarrow> modules s \<subseteq>\<^sub>m modules t \<and> nodeModules s \<subseteq>\<^sub>m nodeModules t"

definition keeps :: "(state \<Rightarrow> state \<Rightarrow> bool) \<Rightarrow> (state \<Rightarrow> ('r \<times> state) option) \<Rightarrow> bool" where
  "keeps R f \<longleftrightarrow> (\<forall>s r t. f s = Some (r, t) \<longrightarrow> R s t)"

definition entered :: "string \<Rightarrow> state \<Rightarrow> state" where
  "entered path s =
     (snd (createModuleObject s))
       \<lparr>modules := (modules (snd (createModuleObject s)))(path \<mapsto> fst (createModuleObject s))\<rparr>"

text \<open>The state in which a native loader starts: the module is registered, the call logged.\<close>

definition entered_native :: "string \<Rightarrow> state \<Rightarrow> state" where
  "entered_native path s =
     (entered path s)\<lparr>events := events s @ [NativeLoaded path (nextObj s)]\<rparr>"

definition step_closed :: "(state \<Rightarrow> state \<Rightarrow> bool) \<Rightarrow> bool" where
  "step_closed R \<longleftrightarrow>
     (\<forall>s. R s s) \<and>
     (\<forall>s t u. R s t \<longrightarrow> R t u \<longrightarrow> R s u) \<and>
     (\<forall>s path. modules s path = None \<longrightarrow> R s (entered path s)) \<and>
     (\<forall>s t path. R s t \<longrightarrow> modules s path = None \<longrightarrow>
        R s (t\<lparr>modules := (modules t)(path := None)\<rparr>)) \<and>
     (\<forall>s path m. R s (s\<lparr>events := events s @ [Executed path m]\<rparr>)) \<and>
     (\<forall>s e k v. R s (SetProp e k v s)) \<and>
     (\<forall>s path. modules s path = None \<longrightarrow> R s (entered_native path s)) \<and>
     (\<forall>s t p k m. R s t \<longrightarrow> modules s p = None \<longrightarrow> modules t k = Some m \<longrightarrow>
        R s (t\<lparr>modules := (modules t)(p \<mapsto> m)\<rparr>)) \<and>
     (\<forall>s t p k m. R s t \<longrightarrow> nodeModules s p = None \<longrightarrow> modules t k = Some m \<longrightarrow>
        R s (t\<lparr>nodeModules := (nodeModules t)(p \<mapsto> m)\<rparr>))"

text \<open>
  \<open>native_once\<close>: a call never runs a native loader for a name that already has an entry in
  the path-keyed cache. \<open>wf_state\<close>: every cached handle and every object of the heap lies
  below the allocation counter, so the object \<open>NewObject\<close> returns next is fresh.
\<close>

fun is_native_load :: "string \<Rightarrow> event \<Rightarrow> bool" where
  "is_native_load name (NativeLoaded path m) = (path = name)"
| "is_native_load name (Executed path m) = False"

definition native_loads :: "string \<Rightarrow> event list \<Rightarrow> nat" where
  "native_loads name evs = length (filter (is_native_load name) evs)"

definition native_once :: "state \<Rightarrow> state \<Rightarrow> bool" where
  "native_once s t \<longleftrightarrow>
     cache_le s t \<and>
     (\<forall>name. modules s name \<noteq> None \<longrightarrow>
        native_loads name (events t) = native_loads name (events s))"

definition wf_state :: "state \<Rightarrow> bool" where
  "wf_state s \<longleftrightarrow>
     (\<forall>k m. modules s k = Some m \<longrightarrow> m < nextObj s) \<and>
     (\<forall>k m. nodeModules s k = Some m \<longrightarrow> m < nextObj s) \<and>
     (\<forall>m. nextObj s \<le> m \<longrightarrow> objects s m = None)"

definition keeps_wf :: "state \<Rightarrow> state \<Rightarrow> bool" where
  "keeps_wf s t \<longleftrightarrow> (wf_state s \<longrightarrow> wf_state t)"

definition same_caches :: "state \<Rightarrow> state \<Rightarrow> bool" where
  "same_caches s t \<longleftrightarrow> modules t = modules s \<and> nodeModules t = nodeModules s"

section \<open>The runtimes of the examples\<close>

text \<open>A concrete runtime for the examples: files, instance-local native loaders, global folders.\<close>

definition mk_env :: "(string \<times> program) list \<Rightarrow> (string \<times> loader) list \<Rightarrow> string list \<Rightarrow> env" where
  "mk_env files natives folders =
     \<lparr>getCompiledSource = map_of files, getSource = (\<lambda>p. None), unmarshalMain = (\<lambda>b. None),
      nativeLocal = map_of natives, nativeGlobal = (\<lambda>p. None), globalFolders = folders\<rparr>"

text \<open>
  Two candidates on disk for one request; a package whose \<open>main\<close> names a directory; a
  module installed at two levels of the ascent, with one global folder.
\<close>

definition files_env :: env where
  "files_env =
     mk_env [(''/m.js'', Function [SetExport ''v'' (VNum 1)]), (''/m.json'', Function [])] [] []"

definition package_env :: env where
  "package_env =
     (mk_env [(''/lib/index.js'', Function []), (''/lib/src/entry/index.js'', Function [])] [] [])
       \<lparr>getSource := map_of [(''/lib/package.json'', ''main: src/entry'')],
        unmarshalMain := map_of [(''main: src/entry'', ''src/entry'')]\<rparr>"


text \<open>
  A native module, whose loader requires the module itself, next to a file that requires it;
  two modules that require each other.
\<close>

definition native_env :: env where
  "native_env =
     mk_env [(''/app/lib.js'', Function [ExportRequire ''fs'' ''./fs''])]
       [(''fs'', [ExportRequire ''self'' ''fs'', SetExport ''readFile'' (VNum 1)])] []"

definition cyclic_env :: env where
  "cyclic_env =
     mk_env
       [(''/A.js'', Function [SetExport ''early'' (VNum 1), ExportRequire ''b'' ''./B'',
                              SetExport ''late'' (VNum 2)]),
        (''/B.js'', Function [ExportRequire ''a'' ''./A''])] [] []"

definition empty_env :: env where
  "empty_env = mk_env [] [] [''/usr/lib/node'']"

text \<open>
  A native module \<open>fs\<close> beside a local file \<open>/app/fs.js\<close>; a module that fails after the
  module it required has required it back; a directory \<open>x\<close> whose module has the name of a
  module one level up and requires it, run from relative source names.
\<close>

definition shadow_env :: env where
  "shadow_env =
     mk_env [(''/app/fs.js'', Function [SetExport ''local'' (VNum 1)])]
       [(''fs'', [SetExport ''readFile'' (VNum 1)])] []"

definition failing_cycle_env :: env where
  "failing_cycle_env =
     mk_env
       [(''/A.js'', Function [Require ''./B'', Throw ''boom'']),
        (''/B.js'', Function [ExportRequire ''a'' ''./A''])] [] []"

definition two_b_env :: env where
  "two_b_env =
     mk_env [(''x/b.js'', Function [Require ''../b'']), (''b.js'', Function [])] [] []"

definition two_util_env :: env where
  "two_util_env =
     mk_env [(''x/util.js'', Function [Require ''../util'']), (''util.js'', Function [])] [] []"

text \<open>
  A file \<open>A.js\<close> beside a directory \<open>x\<close> whose modules \<open>A\<close> and \<open>B\<close> require each
  other; a native module \<open>fs\<close> beside a file \<open>fs.js\<close> that requires it; a native module
  whose loader raises an exception.
\<close>

definition two_A_env :: env where
  "two_A_env =
     mk_env
       [(''A.js'', Function []),
        (''x/A.js'', Function [ExportRequire ''b'' ''./B'']),
        (''x/B.js'', Function [ExportRequire ''a'' ''./A''])] [] []"

definition native_file_env :: env where
  "native_file_env =
     mk_env [(''fs.js'', Function [ExportRequire ''native'' ''fs''])]
       [(''fs'', [SetExport ''readFile'' (VNum 1)])] []"

definition failing_native_env :: env where
  "failing_native_env = mk_env [] [(''bad'', [Throw ''boom''])] []"

text \<open>A module whose body assigns an export and then throws.\<close>

definition throwing_env :: env where
  "throwing_env =
     mk_env [(''/bad.js'', Function [SetExport ''x'' (VNum 1), Throw ''boom''])] [] []"

section \<open>Evaluating the model on a concrete runtime\<close>

lemmas resolver_defs =
  require_call_def run_module_def resolve_def loadNative_def call_loader_def find_loader_def
  filepathClean_def Clean_def
  clean_step_def Join_def Dir_def dir_part_def Base_def strip_slashes_def HasPrefix_def
  is_path_specifier_def getCurrentModulePath_def loadAsFileOrDirectory_def loadAsDirectory_def
  loadAsFile_def loadIndex_def loadModule_def loadModuleFile_def createModuleObject_def
  NewObject_def SetProp_def GetProp_def assign_export_def body_frames_def loadNodeModule_def
  loadNodeModules_def init_state_def mk_env_def Let_def

section \<open>The loaders follow the search order\<close>

lemma outcome_cases:
  fixes r :: outcome
  obtains (Diverges) "r = None"
  | (Fails) err s where "r = Some (Inl err, s)"
  | (Succeeds) module s where "r = Some (Inr module, s)"
proof (cases r)
  case None
  then show ?thesis by (rule Diverges)
next
  case (Some a)
  then show ?thesis by (cases a; cases "fst a") (auto intro: Fails Succeeds)
qed

lemma try_each_append:
  "try_each (fs @ gs) err s =
     (case try_each fs err s of
        None \<Rightarrow> None
      | Some (Inr module, s1) \<Rightarrow> Some (Inr module, s1)
      | Some (Inl err1, s1) \<Rightarrow> try_each gs err1 s1)"
  by (induction fs arbitrary: err s) (auto split: option.splits sum.splits)

lemma try_each_first_error:
  "fs \<noteq> [] \<Longrightarrow> try_each fs err s = try_each fs err' s"
  by (cases fs) auto

lemma loadAsFile_try_each:
  "loadAsFile run path s = try_each (map (loadModule run) (file_candidates path)) err s"
  by (simp add: loadAsFile_def file_candidates_def split: option.splits sum.splits prod.splits)

lemma loadIndex_try_each:
  "loadIndex run path s = try_each (map (loadModule run) (index_candidates path)) err s"
  by (simp add: loadIndex_def index_candidates_def split: option.splits sum.splits prod.splits)

lemma loadAsDirectory_try_each:
  "loadAsDirectory env run path s =
     try_each (map (loadModule run) (directory_candidates env path)) err s"
proof (cases "manifest_main env path")
  case None
  then have "loadAsDirectory env run path s = loadIndex run path s"
    by (auto simp: loadAsDirectory_def manifest_main_def split: option.splits if_splits)
  then show ?thesis using None
    by (simp add: directory_candidates_def loadIndex_try_each [of run path s err])
next
  case (Some main)
  then have as_dir: "loadAsDirectory env run path s =
      (case loadAsFile run (Join path main) s of
         None \<Rightarrow> None
       | Some (Inr module, s1) \<Rightarrow> Some (Inr module, s1)
       | Some (Inl err1, s1) \<Rightarrow> loadIndex run (Join path main) s1)"
    by (auto simp: loadAsDirectory_def manifest_main_def split: option.splits if_splits)
  have as_file: "loadAsFile run (Join path main) s =
      try_each (map (loadModule run) (file_candidates (Join path main))) err s"
    by (rule loadAsFile_try_each)
  show ?thesis
  proof (cases "loadAsFile run (Join path main) s" rule: outcome_cases)
    case Diverges
    then show ?thesis using as_dir as_file Some
      by (simp add: directory_candidates_def try_each_append)
  next
    case (Fails err1 s1)
    then show ?thesis using as_dir as_file Some
        loadIndex_try_each [of run "Join path main" s1 err1]
      by (simp add: directory_candidates_def try_each_append)
  next
    case (Succeeds module s1)
    then show ?thesis using as_dir as_file Some
      by (simp add: directory_candidates_def try_each_append)
  qed
qed

lemma global_loop_try_each:
  "global_loop env run path dirs s =
     (case try_each (map (loadNodeModule env run path) dirs) err s of
        None \<Rightarrow> None
      | Some (Inr module, s1) \<Rightarrow> Some (Some module, s1)
      | Some (Inl err1, s1) \<Rightarrow> Some (None, s1))"
proof (induction dirs arbitrary: err s)
  case Nil
  show ?case by simp
next
  case (Cons d dirs)
  show ?case
  proof (cases "loadNodeModule env run path d s")
    case None
    then show ?thesis by simp
  next
    case (Some r)
    obtain res s1 where r: "r = (res, s1)" by (cases r)
    show ?thesis
    proof (cases res)
      case (Inl e)
      then show ?thesis using Some r Cons.IH [of s1 e] by simp
    next
      case (Inr m)
      then show ?thesis using Some r by simp
    qed
  qed
qed

lemma ascent_loop_try_each:
  "not_found (try_each (map (loadNodeModule env run path) (ascent_dirs start)) err s) =
     ascent_loop env run path start s"
proof (induction start arbitrary: err s rule: ascent_dirs.induct)
  case (1 dir)
  show ?case
  proof (cases "dir = ''..'' \<or> Dir dir = dir")
    case True
    then show ?thesis
      by (subst ascent_loop.simps, subst ascent_dirs.simps)
         (auto simp: node_modules_dir_def not_found_def split: option.splits sum.splits)
  next
    case False
    then have dirs: "ascent_dirs dir = node_modules_dir dir # ascent_dirs (Dir dir)"
      by (subst ascent_dirs.simps) simp
    have loop: "ascent_loop env run path dir s =
        (case loadNodeModule env run path (node_modules_dir dir) s of
           None \<Rightarrow> None
         | Some (Inr module, s1) \<Rightarrow> Some (Inr module, s1)
         | Some (Inl err1, s1) \<Rightarrow> ascent_loop env run path (Dir dir) s1)"
      using False
      by (subst ascent_loop.simps)
         (auto simp: node_modules_dir_def Let_def split: option.splits sum.splits)
    show ?thesis
    proof (cases "loadNodeModule env run path (node_modules_dir dir) s" rule: outcome_cases)
      case Diverges
      then show ?thesis unfolding dirs loop by (simp add: not_found_def)
    next
      case (Fails err1 s1)
      then show ?thesis unfolding dirs loop using "1.IH" [OF False, of err1 s1] by simp
    next
      case (Succeeds module s1)
      then show ?thesis unfolding dirs loop by (simp add: not_found_def)
    qed
  qed
qed

lemma loadNodeModules_try_each:
  "loadNodeModules env run path start s =
     not_found (try_each (map (loadNodeModule env run path) (globalFolders env @ ascent_dirs start)) err s)"
proof (cases "try_each (map (loadNodeModule env run path) (globalFolders env)) err s")
  case None
  then show ?thesis
    using global_loop_try_each [of env run path "globalFolders env" s err]
    by (simp add: loadNodeModules_def try_each_append not_found_def)
next
  case (Some r)
  obtain res s1 where r: "r = (res, s1)" by (cases r)
  show ?thesis
  proof (cases res)
    case (Inl e)
    then show ?thesis
      using Some r global_loop_try_each [of env run path "globalFolders env" s err]
        ascent_loop_try_each [of env run path start e s1]
      by (simp add: loadNodeModules_def try_each_append)
  next
    case (Inr m)
    then show ?thesis
      using Some r global_loop_try_each [of env run path "globalFolders env" s err]
      by (simp add: loadNodeModules_def try_each_append not_found_def)
  qed
qed

lemma loadAsFileOrDirectory_try_each:
  "loadAsFileOrDirectory env run path s =
     try_each (map (loadModule run) (file_candidates path @ directory_candidates env path)) err s"
proof (cases "loadAsFile run path s" rule: outcome_cases)
  case Diverges
  then show ?thesis
    using loadAsFile_try_each [of run path s err]
    by (simp add: loadAsFileOrDirectory_def try_each_append)
next
  case (Fails err1 s1)
  then show ?thesis
    using loadAsFile_try_each [of run path s err] loadAsDirectory_try_each [of env run path s1 err1]
    by (simp add: loadAsFileOrDirectory_def try_each_append)
next
  case (Succeeds module s1)
  then show ?thesis
    using loadAsFile_try_each [of run path s err]
    by (simp add: loadAsFileOrDirectory_def try_each_append)
qed

section \<open>Every call keeps a step-closed relation\<close>

lemma keepsD: "keeps R f \<Longrightarrow> f s = Some (r, t) \<Longrightarrow> R s t"
  by (auto simp: keeps_def)

lemma keepsI: "(\<And>s r t. f s = Some (r, t) \<Longrightarrow> R s t) \<Longrightarrow> keeps R f"
  by (auto simp: keeps_def)

lemma step_closed_refl: "step_closed R \<Longrightarrow> R s s"
  by (simp add: step_closed_def)

lemma step_closed_trans: "step_closed R \<Longrightarrow> R s t \<Longrightarrow> R t u \<Longrightarrow> R s u"
  unfolding step_closed_def by meson

lemma step_closed_entered: "step_closed R \<Longrightarrow> modules s path = None \<Longrightarrow> R s (entered path s)"
  unfolding step_closed_def by meson

lemma step_closed_evict:
  "step_closed R \<Longrightarrow> R s t \<Longrightarrow> modules s path = None \<Longrightarrow>
     R s (t\<lparr>modules := (modules t)(path := None)\<rparr>)"
  unfolding step_closed_def by meson

lemma step_closed_executed: "step_closed R \<Longrightarrow> R s (s\<lparr>events := events s @ [Executed path m]\<rparr>)"
  unfolding step_closed_def by meson

lemma step_closed_SetProp: "step_closed R \<Longrightarrow> R s (SetProp e k v s)"
  unfolding step_closed_def by meson

lemma step_closed_entered_native:
  "step_closed R \<Longrightarrow> modules s path = None \<Longrightarrow> R s (entered_native path s)"
  unfolding step_closed_def by meson

lemma step_closed_alias:
  "step_closed R \<Longrightarrow> R s t \<Longrightarrow> modules s p = None \<Longrightarrow> modules t k = Some m \<Longrightarrow>
     R s (t\<lparr>modules := (modules t)(p \<mapsto> m)\<rparr>)"
  unfolding step_closed_def by meson

lemma step_closed_node_alias:
  "step_closed R \<Longrightarrow> R s t \<Longrightarrow> nodeModules s p = None \<Longrightarrow> modules t k = Some m \<Longrightarrow>
     R s (t\<lparr>nodeModules := (nodeModules t)(p \<mapsto> m)\<rparr>)"
  unfolding step_closed_def by meson

lemma entered_modules: "modules (entered path s) path = Some (nextObj s)"
  by (simp add: entered_def createModuleObject_def NewObject_def)

lemma loadModule_unfold:
  assumes "modules s path = None"
  shows "loadModule run path s =
     (case run path (nextObj s) (entered path s) of
        None \<Rightarrow> None
      | Some (Some err, s3) \<Rightarrow> Some (Inl err, s3\<lparr>modules := (modules s3)(path := None)\<rparr>)
      | Some (None, s3) \<Rightarrow> Some (Inr (nextObj s), s3))"
proof -
  obtain s1 where created: "createModuleObject s = (nextObj s, s1)"
    by (simp add: createModuleObject_def NewObject_def)
  show ?thesis using assms by (simp add: loadModule_def entered_def created)
qed

lemma loadModule_hit: "modules s path = Some m \<Longrightarrow> loadModule run path s = Some (Inr m, s)"
  by (simp add: loadModule_def)

lemma loadModule_keeps:
  assumes R: "step_closed R" and run: "\<forall>path m. keeps R (run path m)"
  shows "keeps R (loadModule run path)"
proof (rule keepsI)
  fix s r t assume load: "loadModule run path s = Some (r, t)"
  show "R s t"
  proof (cases "modules s path")
    case (Some m)
    then show ?thesis using load R by (simp add: loadModule_hit step_closed_refl)
  next
    case None
    let ?m = "nextObj s"
    from None have enter: "R s (entered path s)" by (rule step_closed_entered [OF R])
    show ?thesis
    proof (cases "run path ?m (entered path s)")
      case no: None
      then show ?thesis using load None by (simp add: loadModule_unfold)
    next
      case (Some a)
      obtain e s3 where a: "a = (e, s3)" by (cases a)
      have "R (entered path s) s3" using run Some a by (auto dest: keepsD)
      with enter have s3: "R s s3" by (rule step_closed_trans [OF R])
      show ?thesis
      proof (cases e)
        case ok: None
        then show ?thesis using load None Some a s3 by (simp add: loadModule_unfold)
      next
        case (Some err)
        then show ?thesis
          using load None \<open>run path ?m (entered path s) = Some a\<close> a
            step_closed_evict [OF R s3 None]
          by (auto simp: loadModule_unfold)
      qed
    qed
  qed
qed

lemma loadModule_cached:
  assumes run: "\<forall>path m. keeps cache_le (run path m)"
    and load: "loadModule run path s = Some (Inr m, t)"
  shows "modules t path = Some m"
proof (cases "modules s path")
  case (Some m')
  then show ?thesis using load by (simp add: loadModule_hit)
next
  case None
  let ?m = "nextObj s"
  from load None obtain s3 where s3: "run path ?m (entered path s) = Some (None, s3)"
    and res: "m = ?m" "t = s3"
    by (auto simp: loadModule_unfold split: option.splits)
  from run s3 have "cache_le (entered path s) s3" by (auto dest: keepsD)
  then have "modules s3 path = Some ?m"
    using entered_modules [of path s] by (auto simp: cache_le_def map_le_def dom_def)
  then show ?thesis using res by simp
qed

lemma try_each_keeps:
  assumes R: "step_closed R" and fs: "\<And>f. f \<in> set fs \<Longrightarrow> keeps R f"
  shows "keeps R (try_each fs err)"
  using fs
proof (induction fs arbitrary: err)
  case Nil
  show ?case by (rule keepsI) (simp add: step_closed_refl [OF R])
next
  case (Cons f fs)
  show ?case
  proof (rule keepsI)
    fix s r t assume run: "try_each (f # fs) err s = Some (r, t)"
    show "R s t"
    proof (cases "f s" rule: outcome_cases)
      case Diverges
      then show ?thesis using run by simp
    next
      case (Fails err1 s1)
      then have "R s s1" using Cons.prems [of f] by (auto dest: keepsD)
      moreover have "R s1 t"
        using Cons.IH [of err1] Cons.prems run Fails by (auto dest: keepsD)
      ultimately show ?thesis by (rule step_closed_trans [OF R])
    next
      case (Succeeds module s1)
      then show ?thesis using run Cons.prems [of f] by (auto dest: keepsD)
    qed
  qed
qed

lemma try_each_success:
  assumes "try_each fs err s = Some (Inr m, t)"
  shows "\<exists>f \<in> set fs. \<exists>s1. f s1 = Some (Inr m, t)"
  using assms
proof (induction fs arbitrary: err s)
  case Nil
  then show ?case by simp
next
  case (Cons f fs)
  show ?case
  proof (cases "f s" rule: outcome_cases)
    case Diverges
    then show ?thesis using Cons.prems by simp
  next
    case (Fails err1 s1)
    then show ?thesis using Cons.IH [of err1 s1] Cons.prems by auto
  next
    case (Succeeds module s1)
    then show ?thesis using Cons.prems by auto
  qed
qed

lemma loadAsFileOrDirectory_keeps:
  assumes R: "step_closed R" and run: "\<forall>path m. keeps R (run path m)"
  shows "keeps R (loadAsFileOrDirectory env run path)"
proof -
  have "keeps R (try_each (map (loadModule run)
      (file_candidates path @ directory_candidates env path)) InvalidModuleError)"
    by (rule try_each_keeps [OF R]) (auto intro: loadModule_keeps [OF R run])
  then show ?thesis
    by (simp add: keeps_def loadAsFileOrDirectory_try_each [of env run path _ InvalidModuleError])
qed

lemma loadAsFileOrDirectory_cached:
  assumes run: "\<forall>path m. keeps cache_le (run path m)"
    and load: "loadAsFileOrDirectory env run path s = Some (Inr m, t)"
  shows "\<exists>k. modules t k = Some m"
proof -
  from load have "try_each (map (loadModule run)
      (file_candidates path @ directory_candidates env path)) InvalidModuleError s = Some (Inr m, t)"
    by (simp add: loadAsFileOrDirectory_try_each [of env run path s InvalidModuleError])
  then obtain q s1 where "loadModule run q s1 = Some (Inr m, t)"
    by (auto dest!: try_each_success)
  then show ?thesis using loadModule_cached [OF run] by blast
qed

lemma not_found_keeps: "keeps R f \<Longrightarrow> keeps R (\<lambda>s. not_found (f s))"
  by (auto simp: keeps_def not_found_def split: option.splits sum.splits)

lemma loadNodeModules_keeps:
  assumes R: "step_closed R" and run: "\<forall>path m. keeps R (run path m)"
  shows "keeps R (loadNodeModules env run path start)"
proof -
  have "keeps R (try_each (map (loadNodeModule env run path)
      (globalFolders env @ ascent_dirs start)) InvalidModuleError)"
    by (rule try_each_keeps [OF R])
       (auto simp: loadNodeModule_def [abs_def] intro: loadAsFileOrDirectory_keeps [OF R run])
  then have "keeps R (\<lambda>s. not_found (try_each (map (loadNodeModule env run path)
      (globalFolders env @ ascent_dirs start)) InvalidModuleError s))"
    by (rule not_found_keeps)
  then show ?thesis
    by (simp add: keeps_def loadNodeModules_try_each [of env run path start _ InvalidModuleError])
qed

lemma loadNodeModules_cached:
  assumes run: "\<forall>path m. keeps cache_le (run path m)"
    and load: "loadNodeModules env run path start s = Some (Inr m, t)"
  shows "\<exists>k. modules t k = Some m"
proof -
  from load have "try_each (map (loadNodeModule env run path)
      (globalFolders env @ ascent_dirs start)) InvalidModuleError s = Some (Inr m, t)"
    by (auto simp: loadNodeModules_try_each [of env run path start s InvalidModuleError]
          not_found_def split: option.splits sum.splits)
  then obtain d s1 where "loadNodeModule env run path d s1 = Some (Inr m, t)"
    by (auto dest!: try_each_success)
  then show ?thesis using loadAsFileOrDirectory_cached [OF run] by (auto simp: loadNodeModule_def)
qed

lemma exec_stmt_keeps:
  assumes R: "step_closed R" and req: "\<forall>frames spec. keeps R (req frames spec)"
  shows "keeps R (exec_stmt req frames jsExports st)"
proof (rule keepsI)
  fix s r t assume run: "exec_stmt req frames jsExports st s = Some (r, t)"
  have assign: "assign_export jsExports k v u = Some (r, t) \<Longrightarrow> R u t" for k v u
    using step_closed_SetProp [OF R] step_closed_refl [OF R]
    by (auto simp: assign_export_def split: val.splits)
  have nested: "req frames spec s = Some (x, u) \<Longrightarrow> R s u" for spec x u
    using req by (auto dest: keepsD)
  show "R s t"
  proof (cases st)
    case (Require spec)
    then show ?thesis using run nested [of spec]
      by (auto split: option.splits sum.splits)
  next
    case (TryRequire spec)
    then show ?thesis using run nested [of spec]
      by (auto split: option.splits)
  next
    case (ExportRequire k spec)
    show ?thesis
    proof (cases "req frames spec s" rule: outcome_cases)
      case Diverges
      then show ?thesis using run ExportRequire by simp
    next
      case (Fails err u)
      then show ?thesis using run ExportRequire nested [of spec] by auto
    next
      case (Succeeds m u)
      then have "R s u" by (rule nested)
      moreover have "R u t" using run ExportRequire Succeeds by (auto intro: assign)
      ultimately show ?thesis by (rule step_closed_trans [OF R])
    qed
  next
    case (SetExport k v)
    then show ?thesis using run by (auto intro: assign)
  next
    case (Throw msg)
    then show ?thesis using run by (auto simp: step_closed_refl [OF R])
  qed
qed

lemma call_keeps:
  assumes R: "step_closed R" and req: "\<forall>frames spec. keeps R (req frames spec)"
  shows "keeps R (call req frames jsExports body)"
proof (induction body)
  case Nil
  show ?case by (rule keepsI) (simp add: step_closed_refl [OF R])
next
  case (Cons st body)
  show ?case
  proof (rule keepsI)
    fix s r t assume run: "call req frames jsExports (st # body) s = Some (r, t)"
    then obtain e u where st: "exec_stmt req frames jsExports st s = Some (e, u)"
      by (auto split: option.splits)
    then have su: "R s u" using exec_stmt_keeps [OF R req] by (auto dest: keepsD)
    show "R s t"
    proof (cases e)
      case None
      then have "call req frames jsExports body u = Some (r, t)" using run st by simp
      then have "R u t" using Cons.IH by (auto dest: keepsD)
      with su show ?thesis by (rule step_closed_trans [OF R])
    next
      case (Some err)
      then show ?thesis using run st su by simp
    qed
  qed
qed

lemma loadModuleFile_keeps:
  assumes R: "step_closed R" and req: "\<forall>frames spec. keeps R (req frames spec)"
  shows "keeps R (loadModuleFile env req path m)"
proof (rule keepsI)
  fix s r t assume run: "loadModuleFile env req path m s = Some (r, t)"
  show "R s t"
  proof (cases "getCompiledSource env path")
    case None
    then show ?thesis using run by (simp add: loadModuleFile_def step_closed_refl [OF R])
  next
    case (Some prg)
    show ?thesis
    proof (cases prg)
      case (RunError msg)
      then show ?thesis using run Some by (simp add: loadModuleFile_def step_closed_refl [OF R])
    next
      case NotAFunction
      then show ?thesis using run Some by (simp add: loadModuleFile_def step_closed_refl [OF R])
    next
      case (Function body)
      let ?s1 = "s\<lparr>events := events s @ [Executed path m]\<rparr>"
      have "R s ?s1" by (rule step_closed_executed [OF R])
      moreover have "R ?s1 t"
        using run Some Function call_keeps [OF R req, of "body_frames path" _ body]
        by (auto simp: loadModuleFile_def dest: keepsD)
      ultimately show ?thesis by (rule step_closed_trans [OF R])
    qed
  qed
qed

lemma SetProp_frame [simp]:
  "modules (SetProp e k v s) = modules s"
  "nodeModules (SetProp e k v s) = nodeModules s"
  "nextObj (SetProp e k v s) = nextObj s"
  "events (SetProp e k v s) = events s"
  by (simp_all add: SetProp_def split: option.splits)

lemma createModuleObject_frame [simp]:
  "modules (snd (createModuleObject s)) = modules s"
  "nodeModules (snd (createModuleObject s)) = nodeModules s"
  "events (snd (createModuleObject s)) = events s"
  "nextObj (snd (createModuleObject s)) = Suc (Suc (nextObj s))"
  "fst (createModuleObject s) = nextObj s"
  by (simp_all add: createModuleObject_def NewObject_def)

lemma entered_frame [simp]:
  "modules (entered path s) = (modules s)(path \<mapsto> nextObj s)"
  "nodeModules (entered path s) = nodeModules s"
  "events (entered path s) = events s"
  "nextObj (entered path s) = Suc (Suc (nextObj s))"
  by (simp_all add: entered_def)

lemma entered_native_frame [simp]:
  "modules (entered_native path s) = (modules s)(path \<mapsto> nextObj s)"
  "nodeModules (entered_native path s) = nodeModules s"
  "events (entered_native path s) = events s @ [NativeLoaded path (nextObj s)]"
  "nextObj (entered_native path s) = Suc (Suc (nextObj s))"
  by (simp_all add: entered_native_def)

lemma entered_exports:
  "GetProp (entered path s) (nextObj s) ''exports'' = VRef (Suc (nextObj s))"
  "objects (entered path s) (Suc (nextObj s)) = Some Map.empty"
  by (simp_all add: entered_def createModuleObject_def NewObject_def SetProp_def GetProp_def)

lemma loadNative_unfold:
  "loadNative env req frames path s =
     (case modules s path of
        Some m \<Rightarrow> Some (Returns (Inr m), s)
      | None \<Rightarrow>
          (case find_loader env path of
             Some ldr \<Rightarrow>
               (case call req frames (VRef (Suc (nextObj s))) ldr (entered_native path s) of
                  None \<Rightarrow> None
                | Some (Some err, s3) \<Rightarrow> Some (Panics err, s3)
                | Some (None, s3) \<Rightarrow> Some (Returns (Inr (nextObj s)), s3))
           | None \<Rightarrow> Some (Returns (Inl InvalidModuleError), s)))"
proof (cases "modules s path")
  case (Some m)
  then show ?thesis by (simp add: loadNative_def)
next
  case None
  show ?thesis
  proof (cases "find_loader env path")
    case no_loader: None
    then show ?thesis using None by (simp add: loadNative_def)
  next
    case (Some ldr)
    obtain s1 where created: "createModuleObject s = (nextObj s, s1)"
      by (simp add: createModuleObject_def NewObject_def)
    have exports:
      "GetProp (s1\<lparr>modules := (modules s1)(path \<mapsto> nextObj s)\<rparr>) (nextObj s) ''exports'' =
         VRef (Suc (nextObj s))"
      using entered_exports(1) [of path s] by (simp add: entered_def created GetProp_def)
    have logged: "events s1 = events s"
      using createModuleObject_frame(3) [of s] by (simp add: created)
    show ?thesis
      using None Some
      by (simp add: loadNative_def call_loader_def created exports logged entered_native_def
          entered_def)
  qed
qed

lemma loadNative_failure:
  "loadNative env req frames path s = Some (Returns (Inl err), t) \<Longrightarrow> t = s"
  by (auto simp: loadNative_unfold split: option.splits sum.splits)

lemma loadNative_keeps:
  assumes R: "step_closed R" and req: "\<forall>frames spec. keeps R (req frames spec)"
  shows "keeps R (loadNative env req frames path)"
proof (rule keepsI)
  fix s r t assume load: "loadNative env req frames path s = Some (r, t)"
  show "R s t"
  proof (cases "modules s path")
    case (Some m)
    then show ?thesis using load by (simp add: loadNative_unfold step_closed_refl [OF R])
  next
    case None
    show ?thesis
    proof (cases "find_loader env path")
      case no_loader: None
      then show ?thesis using load None by (simp add: loadNative_unfold step_closed_refl [OF R])
    next
      case (Some ldr)
      from None have enter: "R s (entered_native path s)"
        by (rule step_closed_entered_native [OF R])
      from load None Some obtain e where
        "call req frames (VRef (Suc (nextObj s))) ldr (entered_native path s) = Some (e, t)"
        by (auto simp: loadNative_unfold split: option.splits)
      then have "R (entered_native path s) t"
        by (rule keepsD [OF call_keeps [OF R req]])
      with enter show ?thesis by (rule step_closed_trans [OF R])
    qed
  qed
qed

lemma native_cases:
  fixes r :: "((error + obj) completion \<times> state) option"
  obtains (Diverges) "r = None"
  | (Panicked) err s where "r = Some (Panics err, s)"
  | (Found) module s where "r = Some (Returns (Inr module), s)"
  | (Missed) err s where "r = Some (Returns (Inl err), s)"
proof (cases r)
  case None
  then show ?thesis by (rule Diverges)
next
  case (Some a)
  obtain c s where a: "a = (c, s)" by (cases a)
  show ?thesis
  proof (cases c)
    case (Panics err)
    then show ?thesis using Some a by (auto intro: Panicked)
  next
    case (Returns x)
    then show ?thesis using Some a by (cases x) (auto intro: Found Missed)
  qed
qed

lemma resolve_unfold:
  "resolve env run req frames origPath s =
     (case loadNative env req frames (filepathClean origPath) s of
        None \<Rightarrow> None
      | Some (Panics err, s1) \<Rightarrow> Some (Inl err, s1)
      | Some (Returns (Inr module), s1) \<Rightarrow> Some (Inr module, s1)
      | Some (Returns (Inl err0), s1) \<Rightarrow>
          (if is_path_specifier origPath then
             (case modules s1 (request_key frames origPath) of
                Some module \<Rightarrow> Some (Inr module, s1)
              | None \<Rightarrow>
                  (case loadAsFileOrDirectory env run (request_key frames origPath) s1 of
                     None \<Rightarrow> None
                   | Some (Inl err, s2) \<Rightarrow> Some (Inl err, s2)
                   | Some (Inr module, s2) \<Rightarrow>
                       Some (Inr module,
                             s2\<lparr>modules := (modules s2)(request_key frames origPath \<mapsto> module)\<rparr>)))
           else
             (case nodeModules s1 (request_key frames origPath) of
                Some module \<Rightarrow> Some (Inr module, s1)
              | None \<Rightarrow>
                  (case loadNodeModules env run (filepathClean origPath)
                          (start_dir frames origPath) s1 of
                     None \<Rightarrow> None
                   | Some (Inl err, s2) \<Rightarrow> Some (Inl err, s2)
                   | Some (Inr module, s2) \<Rightarrow>
                       Some (Inr module,
                             s2\<lparr>nodeModules :=
                                  (nodeModules s2)(request_key frames origPath \<mapsto> module)\<rparr>)))))"
proof -
  have nonempty: "filepathClean origPath \<noteq> []" by (simp add: filepathClean_def Clean_nonempty)
  show ?thesis
    unfolding request_key_def start_dir_def
    by (cases "loadNative env req frames (filepathClean origPath) s" rule: native_cases)
       (simp_all add: resolve_def Let_def nonempty)
qed

lemma resolve_keeps:
  assumes R: "step_closed R" and run: "\<forall>path m. keeps R (run path m)"
    and mono: "\<forall>path m. keeps cache_le (run path m)"
    and req: "\<forall>frames spec. keeps R (req frames spec)"
  shows "keeps R (resolve env run req frames origPath)"
proof (rule keepsI)
  fix s r t assume res: "resolve env run req frames origPath s = Some (r, t)"
  define path where "path = filepathClean origPath"
  define start where "start = start_dir frames origPath"
  define p where "p = request_key frames origPath"
  note unfold = resolve_unfold [of env run req frames origPath s, folded path_def start_def p_def]
  have native: "loadNative env req frames path s = Some (r0, s1) \<Longrightarrow> R s s1" for r0 s1
    by (rule keepsD [OF loadNative_keeps [OF R req]])
  show "R s t"
  proof (cases "loadNative env req frames path s" rule: native_cases)
    case Diverges
    then show ?thesis using res by (simp add: unfold)
  next
    case (Panicked err s1)
    then show ?thesis using res native [OF Panicked] by (simp add: unfold)
  next
    case (Found m s1)
    then show ?thesis using res native [OF Found] by (simp add: unfold)
  next
    case (Missed err0 s1)
    then have same: "s1 = s" by (rule loadNative_failure)
    show ?thesis
    proof (cases "is_path_specifier origPath")
      case True
      show ?thesis
      proof (cases "modules s p")
        case (Some m)
        then show ?thesis using res Missed same True
          by (simp add: unfold step_closed_refl [OF R])
      next
        case None
        show ?thesis
        proof (cases "loadAsFileOrDirectory env run p s" rule: outcome_cases)
          case Diverges
          then show ?thesis using res Missed same True None by (simp add: unfold)
        next
          case (Fails err s2)
          then have "R s s2"
            using loadAsFileOrDirectory_keeps [OF R run, of env p] by (auto dest: keepsD)
          then show ?thesis using res Missed same True None Fails by (simp add: unfold)
        next
          case (Succeeds m s2)
          then have "R s s2"
            using loadAsFileOrDirectory_keeps [OF R run, of env p] by (auto dest: keepsD)
          moreover obtain k where "modules s2 k = Some m"
            using loadAsFileOrDirectory_cached [OF mono Succeeds] by blast
          ultimately have "R s (s2\<lparr>modules := (modules s2)(p \<mapsto> m)\<rparr>)"
            using None by (intro step_closed_alias [OF R])
          then show ?thesis using res Missed same True None Succeeds by (simp add: unfold)
        qed
      qed
    next
      case False
      show ?thesis
      proof (cases "nodeModules s p")
        case (Some m)
        then show ?thesis using res Missed same False
          by (simp add: unfold step_closed_refl [OF R])
      next
        case None
        show ?thesis
        proof (cases "loadNodeModules env run path start s" rule: outcome_cases)
          case Diverges
          then show ?thesis using res Missed same False None by (simp add: unfold)
        next
          case (Fails err s2)
          then have "R s s2"
            using loadNodeModules_keeps [OF R run, of env path start] by (auto dest: keepsD)
          then show ?thesis using res Missed same False None Fails by (simp add: unfold)
        next
          case (Succeeds m s2)
          then have "R s s2"
            using loadNodeModules_keeps [OF R run, of env path start] by (auto dest: keepsD)
          moreover obtain k where "modules s2 k = Some m"
            using loadNodeModules_cached [OF mono Succeeds] by blast
          ultimately have "R s (s2\<lparr>nodeModules := (nodeModules s2)(p \<mapsto> m)\<rparr>)"
            using None by (intro step_closed_node_alias [OF R])
          then show ?thesis using res Missed same False None Succeeds by (simp add: unfold)
        qed
      qed
    qed
  qed
qed

lemma cache_le_refl: "cache_le s s"
  by (simp add: cache_le_def)

lemma cache_le_trans: "cache_le s t \<Longrightarrow> cache_le t u \<Longrightarrow> cache_le s u"
  by (auto simp: cache_le_def intro: map_le_trans)

lemma step_closed_cache_le: "step_closed cache_le"
  unfolding step_closed_def
proof (intro conjI allI impI)
  fix s t u assume "cache_le s t" "cache_le t u"
  then show "cache_le s u" by (rule cache_le_trans)
qed (auto simp: cache_le_def map_le_def dom_def)

lemma nested_require_Suc: "nested_require (Suc n) env = require_call n env"
  by (simp add: require_call_def run_module_def)

lemma nested_require_mono: "keeps cache_le (nested_require n env frames spec)"
proof (induction n arbitrary: frames spec)
  case 0
  show ?case by (simp add: keeps_def)
next
  case (Suc n)
  have req: "\<forall>frames spec. keeps cache_le (nested_require n env frames spec)"
    using Suc.IH by blast
  have run: "\<forall>path m. keeps cache_le (loadModuleFile env (nested_require n env) path m)"
    using loadModuleFile_keeps [OF step_closed_cache_le req] by blast
  show ?case
    by (simp, rule resolve_keeps [OF step_closed_cache_le run run req])
qed

lemma run_module_mono: "keeps cache_le (run_module n env path m)"
  unfolding run_module_def
  using loadModuleFile_keeps [OF step_closed_cache_le] nested_require_mono by blast

lemma nested_require_keeps:
  assumes R: "step_closed R"
  shows "keeps R (nested_require n env frames spec)"
proof (induction n arbitrary: frames spec)
  case 0
  show ?case by (simp add: keeps_def)
next
  case (Suc n)
  have req: "\<forall>frames spec. keeps R (nested_require n env frames spec)"
    using Suc.IH by blast
  have run: "\<forall>path m. keeps R (loadModuleFile env (nested_require n env) path m)"
    using loadModuleFile_keeps [OF R req] by blast
  have mono: "\<forall>path m. keeps cache_le (loadModuleFile env (nested_require n env) path m)"
    using run_module_mono [of n env] by (simp add: run_module_def)
  show ?case
    by (simp, rule resolve_keeps [OF R run mono req])
qed

lemma run_module_keeps:
  assumes R: "step_closed R"
  shows "keeps R (run_module n env path m)"
  unfolding run_module_def
  using loadModuleFile_keeps [OF R] nested_require_keeps [OF R] by blast

lemma require_call_keeps:
  assumes R: "step_closed R"
  shows "keeps R (require_call n env frames spec)"
  using nested_require_keeps [OF R, of "Suc n" env frames spec]
  by (simp only: nested_require_Suc)

lemma require_seq_keeps:
  assumes R: "step_closed R" and run: "require_seq n env reqs s = Some t"
  shows "R s t"
  using run
proof (induction reqs arbitrary: s)
  case Nil
  then show ?case by (simp add: step_closed_refl [OF R])
next
  case (Cons req reqs)
  obtain frames spec where req: "req = (frames, spec)" by (cases req)
  from Cons.prems req obtain r u where
    first: "require_call n env frames spec s = Some (r, u)" and rest: "require_seq n env reqs u = Some t"
    by (auto split: option.splits)
  from first have "R s u" by (rule keepsD [OF require_call_keeps [OF R]])
  moreover from rest have "R u t" by (rule Cons.IH)
  ultimately show ?case by (rule step_closed_trans [OF R])
qed

section \<open>Native loads are counted; handles are below the allocation counter\<close>

lemma step_closed_native_once: "step_closed native_once"
  unfolding step_closed_def
proof (intro conjI allI impI)
  fix s t u assume "native_once s t" "native_once t u"
  then show "native_once s u"
    by (auto simp: native_once_def cache_le_def map_le_def dom_def intro: map_le_trans)
qed (auto simp: native_once_def native_loads_def cache_le_def map_le_def dom_def)

lemma SetProp_objects: "objects (SetProp e k v s) m = None \<longleftrightarrow> objects s m = None"
  by (auto simp: SetProp_def split: option.splits)

lemma SetProp_wf: "wf_state (SetProp e k v s) = wf_state s"
  by (simp add: wf_state_def SetProp_objects)

lemma createModuleObject_objects:
  "objects (snd (createModuleObject s)) m = None \<longleftrightarrow>
     objects s m = None \<and> m \<noteq> nextObj s \<and> m \<noteq> Suc (nextObj s)"
  by (auto simp: createModuleObject_def NewObject_def SetProp_def split: option.splits)

lemma entered_objects:
  "objects (entered path s) m = None \<longleftrightarrow>
     objects s m = None \<and> m \<noteq> nextObj s \<and> m \<noteq> Suc (nextObj s)"
  using createModuleObject_objects [of s m] by (simp add: entered_def)

lemma entered_wf: "wf_state s \<Longrightarrow> wf_state (entered path s)"
  unfolding wf_state_def entered_objects
  by (auto simp: less_Suc_eq split: if_splits)

lemma entered_native_wf: "wf_state s \<Longrightarrow> wf_state (entered_native path s)"
  using entered_wf [of s path] by (simp add: wf_state_def entered_native_def)

lemma step_closed_keeps_wf: "step_closed keeps_wf"
  unfolding step_closed_def
proof (intro conjI allI impI)
  fix s :: state and path assume "modules s path = None"
  show "keeps_wf s (entered path s)" by (simp add: keeps_wf_def entered_wf)
next
  fix s :: state and e k v show "keeps_wf s (SetProp e k v s)" by (simp add: keeps_wf_def SetProp_wf)
next
  fix s :: state and path assume "modules s path = None"
  show "keeps_wf s (entered_native path s)" by (simp add: keeps_wf_def entered_native_wf)
qed (auto simp: keeps_wf_def wf_state_def)

lemma wf_init_state: "wf_state init_state"
  by (simp add: wf_state_def init_state_def)

lemma resolve_hit:
  assumes "filepathClean origPath = name" and "modules t name = Some m"
  shows "resolve env run req frames origPath t = Some (Inr m, t)"
  using assms by (simp add: resolve_unfold loadNative_unfold)

lemma wf_state_fresh:
  assumes "wf_state s"
  shows "objects s (nextObj s) = None" and "objects s (Suc (nextObj s)) = None"
    and "modules s k \<noteq> Some (nextObj s)" and "nodeModules s k \<noteq> Some (nextObj s)"
  using assms by (auto simp: wf_state_def)

section \<open>A request that nothing resolves\<close>

lemma run_module_loadModuleFile: "\<exists>req. run_module n env = loadModuleFile env req"
  by (auto simp: run_module_def)

lemma loadModule_no_source:
  assumes "modules s q = None" and "getCompiledSource env q = None"
  shows "\<exists>t. loadModule (loadModuleFile env req) q s = Some (Inl (SourceError q), t)
           \<and> same_caches s t"
proof -
  have "(modules s)(q := None) = modules s" using assms(1) by (simp add: fun_upd_idem)
  then show ?thesis
    using assms by (simp add: loadModule_unfold loadModuleFile_def same_caches_def)
qed

lemma try_each_no_source:
  assumes "qs \<noteq> []"
    and "\<forall>q \<in> set qs. modules s q = None \<and> getCompiledSource env q = None"
  shows "\<exists>t. try_each (map (loadModule (loadModuleFile env req)) qs) err s =
              Some (Inl (SourceError (last qs)), t)
           \<and> same_caches s t"
  using assms
proof (induction qs arbitrary: s err)
  case Nil
  then show ?case by simp
next
  case (Cons q qs)
  from Cons.prems obtain u where
    first: "loadModule (loadModuleFile env req) q s = Some (Inl (SourceError q), u)"
    and same: "same_caches s u"
    using loadModule_no_source [of s q env req] by auto
  show ?case
  proof (cases "qs = []")
    case True
    then show ?thesis using first same by simp
  next
    case False
    have "\<forall>q \<in> set qs. modules u q = None \<and> getCompiledSource env q = None"
      using Cons.prems same by (simp add: same_caches_def)
    from Cons.IH [OF False this, of "SourceError q"] obtain t where
      "try_each (map (loadModule (loadModuleFile env req)) qs) (SourceError q) u =
         Some (Inl (SourceError (last qs)), t)" and "same_caches u t"
      by blast
    then show ?thesis using first same False by (auto simp: same_caches_def)
  qed
qed

lemma path_candidates_nonempty: "path_candidates env p \<noteq> []"
  by (simp add: path_candidates_def file_candidates_def)

lemma loadAsFileOrDirectory_no_source:
  assumes "\<forall>q \<in> set (path_candidates env p). modules s q = None \<and> getCompiledSource env q = None"
  shows "\<exists>t. loadAsFileOrDirectory env (loadModuleFile env req) p s =
              Some (Inl (SourceError (last (path_candidates env p))), t)
           \<and> same_caches s t"
  using try_each_no_source [OF path_candidates_nonempty assms, of req InvalidModuleError]
  by (simp add: loadAsFileOrDirectory_try_each [of env _ p s InvalidModuleError]
      path_candidates_def)

lemma node_dirs_no_source:
  assumes "\<forall>q \<in> set (concat (map (\<lambda>dir. path_candidates env (Join dir path)) dirs)).
             modules s q = None \<and> getCompiledSource env q = None"
  shows "\<exists>err' t. try_each (map (loadNodeModule env (loadModuleFile env req) path) dirs) err s =
              Some (Inl err', t)
           \<and> same_caches s t"
  using assms
proof (induction dirs arbitrary: s err)
  case Nil
  then show ?case by (simp add: same_caches_def)
next
  case (Cons d dirs)
  from Cons.prems have
    "\<forall>q \<in> set (path_candidates env (Join d path)). modules s q = None \<and> getCompiledSource env q = None"
    by simp
  from loadAsFileOrDirectory_no_source [OF this, of req] obtain e1 u where
    first: "loadNodeModule env (loadModuleFile env req) path d s = Some (Inl e1, u)"
    and same: "same_caches s u"
    by (auto simp: loadNodeModule_def)
  have "\<forall>q \<in> set (concat (map (\<lambda>dir. path_candidates env (Join dir path)) dirs)).
      modules u q = None \<and> getCompiledSource env q = None"
    using Cons.prems same by (simp add: same_caches_def)
  from Cons.IH [OF this, of e1] obtain err' t where
    "try_each (map (loadNodeModule env (loadModuleFile env req) path) dirs) e1 u = Some (Inl err', t)"
    and "same_caches u t"
    by blast
  then show ?case using first same by (auto simp: same_caches_def)
qed

section \<open>The claims about the search order\<close>

text \<open>
  C5. For every path given to file loading, the candidates are tried in exactly this order:
  the exact path, the path with \<open>.js\<close> appended, the path with \<open>.json\<close> appended. The
  first candidate that loads is returned and no later candidate is attempted: \<open>loadAsFile\<close>
  is \<open>try_each\<close> over the three loads, each run on the state the failed one before it left.
\<close>

theorem loadAsFile_order:
  "loadAsFile run path s =
     try_each (map (loadModule run) [path, path @ ''.js'', path @ ''.json'']) err s
   \<and> (loadModule run path s = Some (Inr m, t) \<longrightarrow> loadAsFile run path s = Some (Inr m, t))
   \<and> (loadModule run path s = Some (Inl err1, s1)
        \<and> loadModule run (path @ ''.js'') s1 = Some (Inr m, t)
        \<longrightarrow> loadAsFile run path s = Some (Inr m, t))
   \<and> (loadModule run path s = Some (Inl err1, s1)
        \<and> loadModule run (path @ ''.js'') s1 = Some (Inl err2, s2)
        \<longrightarrow> loadAsFile run path s = loadModule run (path @ ''.json'') s2)"
proof (intro conjI impI)
  show "loadAsFile run path s =
      try_each (map (loadModule run) [path, path @ ''.js'', path @ ''.json'']) err s"
    using loadAsFile_try_each [of run path s err] by (simp add: file_candidates_def)
next
  assume "loadModule run path s = Some (Inr m, t)"
  then show "loadAsFile run path s = Some (Inr m, t)" by (simp add: loadAsFile_def)
next
  assume "loadModule run path s = Some (Inl err1, s1)
      \<and> loadModule run (path @ ''.js'') s1 = Some (Inr m, t)"
  then show "loadAsFile run path s = Some (Inr m, t)" by (simp add: loadAsFile_def)
next
  assume "loadModule run path s = Some (Inl err1, s1)
      \<and> loadModule run (path @ ''.js'') s1 = Some (Inl err2, s2)"
  then show "loadAsFile run path s = loadModule run (path @ ''.json'') s2"
    by (simp add: loadAsFile_def)
qed

theorem loadAsFile_order_witness:
  "loadAsFile (run_module 0 files_env) ''/m'' init_state =
     try_each (map (loadModule (run_module 0 files_env)) [''/m'', ''/m.js'', ''/m.json''])
       InvalidModuleError init_state
   \<and> (case loadAsFile (run_module 0 files_env) ''/m'' init_state of
        Some (Inr module, s) \<Rightarrow>
          module = 2 \<and> modules s ''/m.js'' = Some 2 \<and> modules s ''/m'' = None
          \<and> modules s ''/m.json'' = None \<and> events s = [Executed ''/m.js'' 2]
      | _ \<Rightarrow> False)"
proof -
  have order: "loadAsFile (run_module 0 files_env) ''/m'' init_state =
     try_each (map (loadModule (run_module 0 files_env)) [''/m'', ''/m.js'', ''/m.json''])
       InvalidModuleError init_state"
    using conjunct1 [OF loadAsFile_order [of "run_module 0 files_env" "''/m''" init_state
        InvalidModuleError]]
    by simp
  have run: "case loadAsFile (run_module 0 files_env) ''/m'' init_state of
        Some (Inr module, s) \<Rightarrow>
          module = 2 \<and> modules s ''/m.js'' = Some 2 \<and> modules s ''/m'' = None
          \<and> modules s ''/m.json'' = None \<and> events s = [Executed ''/m.js'' 2]
      | _ \<Rightarrow> False"
    by (simp add: resolver_defs files_env_def)
  from order run show ?thesis by (rule conjI)
qed

text \<open>
  C6. For every directory load: when \<open>path/package.json\<close> is absent, does not parse or has
  an empty \<open>main\<close>, the loader tries \<open>path/index.js\<close>, then \<open>path/index.json\<close>. Otherwise
  it tries file loading of the joined main path (exact, \<open>.js\<close>, \<open>.json\<close>) and then the
  index files of the joined main path, not of the original directory.
\<close>

theorem loadAsDirectory_order:
  "loadAsDirectory env run path s =
     (case manifest_main env path of
        None \<Rightarrow>
          try_each (map (loadModule run) [Join path ''index.js'', Join path ''index.json'']) err s
      | Some main \<Rightarrow>
          try_each (map (loadModule run)
            [Join path main, Join path main @ ''.js'', Join path main @ ''.json'',
             Join (Join path main) ''index.js'', Join (Join path main) ''index.json'']) err s)"
  using loadAsDirectory_try_each [of env run path s err]
  by (simp add: directory_candidates_def file_candidates_def index_candidates_def
      split: option.splits)

theorem loadAsDirectory_order_witness:
  "manifest_main package_env ''/lib'' = Some ''src/entry''
   \<and> manifest_main package_env ''/other'' = None
   \<and> loadAsDirectory package_env (run_module 0 package_env) ''/lib'' init_state =
       try_each (map (loadModule (run_module 0 package_env))
         [''/lib/src/entry'', ''/lib/src/entry.js'', ''/lib/src/entry.json'',
          ''/lib/src/entry/index.js'', ''/lib/src/entry/index.json'']) InvalidModuleError init_state
   \<and> (case loadAsDirectory package_env (run_module 0 package_env) ''/lib'' init_state of
        Some (Inr module, s) \<Rightarrow>
          modules s ''/lib/src/entry/index.js'' = Some module
          \<and> events s = [Executed ''/lib/src/entry/index.js'' module]
      | _ \<Rightarrow> False)"
proof -
  have m: "manifest_main package_env ''/lib'' = Some ''src/entry''"
    by (simp add: manifest_main_def package_env_def resolver_defs)
  have n: "manifest_main package_env ''/other'' = None"
    by (simp add: manifest_main_def package_env_def resolver_defs)
  have j: "Join ''/lib'' ''src/entry'' = ''/lib/src/entry''"
      "Join ''/lib/src/entry'' ''index.js'' = ''/lib/src/entry/index.js''"
      "Join ''/lib/src/entry'' ''index.json'' = ''/lib/src/entry/index.json''"
    by (simp_all add: resolver_defs)
  have e: "case loadAsDirectory package_env (run_module 0 package_env) ''/lib'' init_state of
        Some (Inr module, s) \<Rightarrow>
          modules s ''/lib/src/entry/index.js'' = Some module
          \<and> events s = [Executed ''/lib/src/entry/index.js'' module]
      | _ \<Rightarrow> False"
    by (simp add: resolver_defs package_env_def)
  show ?thesis
    using loadAsDirectory_order [of package_env "run_module 0 package_env" "''/lib''" init_state
        InvalidModuleError] m n e
    by (simp add: j)
qed




section \<open>The claim that holds in an amended form\<close>

text \<open>
  C8, as stated, fails: a bare specifier that nothing resolves fails with
  \<open>InvalidModuleError\<close>, the very error \<open>loadModuleFile\<close> returns for a source that is
  not a function. resolve.go has no separate module-not-found error.
\<close>

theorem module_not_found_is_invalid_module:
  "(case require_call 0 empty_env [''<native>'', ''/app/main.js''] ''left-pad'' init_state of
      Some (Inl err, t) \<Rightarrow> err = InvalidModuleError
    | _ \<Rightarrow> False)
   \<and> loadModuleFile (mk_env [(''/bad.js'', NotAFunction)] [] []) (\<lambda>frames spec s. None)
        ''/bad.js'' 0 init_state =
       Some (Some InvalidModuleError, init_state)"
  by (simp add: resolver_defs empty_env_def ascent_loop.simps)

text \<open>
  C8, amended. For every require call in which no native loader, cached handle or candidate
  file resolves the specifier, the call fails, never with \<open>IllegalModuleNameError\<close>. For a
  bare specifier the error is \<open>InvalidModuleError\<close>; for a relative or absolute specifier it
  is the source provider's failure for the last candidate tried, the \<open>index.json\<close> of the
  directory load. Both caches are left as they were.
\<close>

theorem nothing_resolves_error:
  assumes native: "modules s (filepathClean origPath) = None"
      "find_loader env (filepathClean origPath) = None"
    and key: "\<not> request_cached s frames origPath"
    and absent: "list_all (\<lambda>q. modules s q = None \<and> getCompiledSource env q = None)
        (all_candidates env frames origPath)"
  shows "\<exists>err t. require_call n env frames origPath s = Some (Inl err, t)
           \<and> err \<noteq> IllegalModuleNameError
           \<and> (if is_path_specifier origPath
               then err = SourceError (last (all_candidates env frames origPath))
               else err = InvalidModuleError)
           \<and> same_caches s t"
proof -
  let ?path = "filepathClean origPath"
  let ?start = "start_dir frames origPath"
  let ?p = "Join ?start ?path"
  obtain req where run: "run_module n env = loadModuleFile env req"
    using run_module_loadModuleFile by blast
  have candidates: "\<forall>q \<in> set (all_candidates env frames origPath).
      modules s q = None \<and> getCompiledSource env q = None"
    using absent by (simp add: list_all_iff)
  have miss: "loadNative env (nested_require n env) frames ?path s =
      Some (Returns (Inl InvalidModuleError), s)"
    using native by (simp add: loadNative_unfold)
  have nonempty: "?path \<noteq> []" by (simp add: filepathClean_def Clean_nonempty)
  note unfold = resolve_unfold [of env "run_module n env" "nested_require n env" frames origPath s,
      unfolded request_key_def]
  show ?thesis
  proof (cases "is_path_specifier origPath")
    case True
    then have "\<forall>q \<in> set (path_candidates env ?p).
        modules s q = None \<and> getCompiledSource env q = None"
      using candidates by (simp add: all_candidates_def)
    from loadAsFileOrDirectory_no_source [OF this, of req] obtain t where
      "loadAsFileOrDirectory env (run_module n env) ?p s =
         Some (Inl (SourceError (last (path_candidates env ?p))), t)"
      and "same_caches s t"
      unfolding run by blast
    moreover have "modules s ?p = None"
      using key True by (simp add: request_cached_def)
    ultimately show ?thesis
      using True miss by (simp add: require_call_def unfold all_candidates_def)
  next
    case False
    then have "\<forall>q \<in> set (concat (map (\<lambda>dir. path_candidates env (Join dir ?path))
          (globalFolders env @ ascent_dirs ?start))).
        modules s q = None \<and> getCompiledSource env q = None"
      using candidates by (simp add: all_candidates_def)
    from node_dirs_no_source [OF this, of req InvalidModuleError] obtain err' t where
      "try_each (map (loadNodeModule env (run_module n env) ?path)
          (globalFolders env @ ascent_dirs ?start)) InvalidModuleError s = Some (Inl err', t)"
      and same: "same_caches s t"
      unfolding run by blast
    then have "loadNodeModules env (run_module n env) ?path ?start s =
        Some (Inl InvalidModuleError, t)"
      by (simp add: loadNodeModules_try_each [of env _ ?path ?start s InvalidModuleError]
          not_found_def)
    moreover have "nodeModules s ?p = None"
      using key False by (simp add: request_cached_def)
    ultimately show ?thesis
      using False miss same by (simp add: require_call_def unfold)
  qed
qed

theorem nothing_resolves_error_witness:
  "modules init_state (filepathClean ''../util'') = None
   \<and> find_loader empty_env (filepathClean ''../util'') = None
   \<and> \<not> request_cached init_state [''<native>'', ''/app/src/main.js''] ''../util''
   \<and> all_candidates empty_env [''<native>'', ''/app/src/main.js''] ''../util'' =
       [''/app/util'', ''/app/util.js'', ''/app/util.json'', ''/app/util/index.js'',
        ''/app/util/index.json'']
   \<and> list_all (\<lambda>q. modules init_state q = None \<and> getCompiledSource empty_env q = None)
        (all_candidates empty_env [''<native>'', ''/app/src/main.js''] ''../util'')
   \<and> (\<exists>t. require_call 1 empty_env [''<native>'', ''/app/src/main.js''] ''../util'' init_state =
            Some (Inl (SourceError ''/app/util/index.json''), t)
          \<and> same_caches init_state t)"
proof -
  let ?frames = "[''<native>'', ''/app/src/main.js'']"
  have native: "modules init_state (filepathClean ''../util'') = None"
      "find_loader empty_env (filepathClean ''../util'') = None"
    by (simp_all add: init_state_def find_loader_def empty_env_def mk_env_def)
  have key: "\<not> request_cached init_state ?frames ''../util''"
    by (simp add: request_cached_def init_state_def)
  have all: "all_candidates empty_env ?frames ''../util'' =
      [''/app/util'', ''/app/util.js'', ''/app/util.json'', ''/app/util/index.js'',
       ''/app/util/index.json'']"
    by (simp add: all_candidates_def path_candidates_def file_candidates_def
        directory_candidates_def index_candidates_def manifest_main_def start_dir_def
        empty_env_def resolver_defs)
  have absent: "list_all (\<lambda>q. modules init_state q = None \<and> getCompiledSource empty_env q = None)
      (all_candidates empty_env ?frames ''../util'')"
    by (simp add: list_all_iff init_state_def empty_env_def mk_env_def)
  have specifier: "is_path_specifier ''../util''"
    by (simp add: is_path_specifier_def HasPrefix_def)
  from nothing_resolves_error [OF native key absent, of 1]
  have "\<exists>t. require_call 1 empty_env ?frames ''../util'' init_state =
            Some (Inl (SourceError ''/app/util/index.json''), t)
          \<and> same_caches init_state t"
    by (auto simp: specifier all)
  with native key all absent show ?thesis by (intro conjI)
qed

section \<open>Where the code departs from the claims\<close>

text \<open>
  C1 says the native lookup uses the specifier as written, so that \<open>./name\<close>, with a native
  module registered as \<open>name\<close>, resolves to the local file. \<open>resolve\<close> passes the cleaned
  specifier to \<open>loadNative\<close> and tests the prefix of the specifier as written only
  afterwards: with a native loader registered as \<open>fs\<close> and a file \<open>/app/fs.js\<close>, a require
  of \<open>./fs\<close> from \<open>/app/main.js\<close> returns the native module and the file is never loaded.
\<close>

theorem native_shadows_relative_file:
  "filepathClean ''./fs'' = ''fs''
   \<and> getCompiledSource shadow_env ''/app/fs.js'' = Some (Function [SetExport ''local'' (VNum 1)])
   \<and> (case require_call 1 shadow_env [''<native>'', ''/app/main.js''] ''./fs'' init_state of
         Some (Inr m, t) \<Rightarrow>
           events t = [NativeLoaded ''fs'' m] \<and> modules t ''fs'' = Some m
           \<and> modules t ''/app/fs'' = None \<and> modules t ''/app/fs.js'' = None
           \<and> GetProp t (Suc m) ''readFile'' = VNum 1 \<and> GetProp t (Suc m) ''local'' = VUndefined
       | _ \<Rightarrow> False)"
  by (simp add: resolver_defs shadow_env_def)

text \<open>
  C2 says a failed require leaves no entry in either cache, also when the failing module was
  required cyclically during its own execution. With \<open>/A.js\<close> requiring \<open>./B\<close> and then
  throwing, and \<open>/B.js\<close> requiring \<open>./A\<close>, the require of \<open>./A\<close> fails and evicts the key
  \<open>/A.js\<close>, but the key \<open>/A\<close>, stored by the nested resolve, still holds the handle of the
  failed module; the next require of \<open>./A\<close> returns that handle and runs nothing.
\<close>

theorem failed_cyclic_load_leaves_entry:
  "(case require_call 2 failing_cycle_env [''<native>'', ''/main.js''] ''./A'' init_state of
      Some (Inl err, t) \<Rightarrow>
        modules t ''/A.js'' = None \<and> modules t ''/A'' = Some 2
        \<and> modules init_state ''/A'' = None
        \<and> events t = [Executed ''/A.js'' 2, Executed ''/B.js'' 6]
        \<and> (case require_call 2 failing_cycle_env [''<native>'', ''/main.js''] ''./A'' t of
              Some (Inr m, u) \<Rightarrow> m = 2 \<and> events u = events t
            | _ \<Rightarrow> False)
    | _ \<Rightarrow> False)"
  by (simp add: resolver_defs failing_cycle_env_def numeral_2_eq_2)

text \<open>
  C3 says a cyclic require of a path whose module body is still executing returns the handle
  of that module. With a file \<open>A.js\<close> already loaded through a require of \<open>./A\<close>, and
  \<open>x/A.js\<close> requiring \<open>./B\<close>, which requires \<open>./A\<close> back: the require of \<open>./A\<close> inside
  \<open>x/B.js\<close>, issued while the body of \<open>x/A.js\<close> is executing, returns the module of
  \<open>A.js\<close>, cached under the key \<open>A\<close> that \<open>loadNative\<close> looks up first, and not the
  handle of \<open>x/A.js\<close>.
\<close>

theorem cyclic_require_returns_other_module:
  "(case require_call 2 two_A_env [''<native>'', ''main.js''] ''./A'' init_state of
      Some (Inr outer, t) \<Rightarrow>
        outer = 2 \<and> modules t ''A.js'' = Some 2 \<and> modules t ''A'' = Some 2
        \<and> (case require_call 2 two_A_env [''<native>'', ''main.js''] ''./x/A'' t of
              Some (Inr a, u) \<Rightarrow>
                a = 6 \<and> modules u ''x/A.js'' = Some 6 \<and> modules u ''x/B.js'' = Some 10
                \<and> GetProp u 2 ''exports'' = VRef 3 \<and> GetProp u 6 ''exports'' = VRef 7
                \<and> GetProp u 10 ''exports'' = VRef 11
                \<and> GetProp u 7 ''b'' = VRef 11 \<and> GetProp u 11 ''a'' = VRef 3
                \<and> events u =
                    [Executed ''A.js'' 2, Executed ''x/A.js'' 6, Executed ''x/B.js'' 10]
            | _ \<Rightarrow> False)
    | _ \<Rightarrow> False)"
  by (simp add: resolver_defs two_A_env_def numeral_2_eq_2)

text \<open>
  C4 says two resolutions of the same relative specifier from the same start directory return
  the identical handle. With \<open>x/b.js\<close> requiring \<open>../b\<close> and a file \<open>b.js\<close>, the first require
  of \<open>./b\<close> from \<open>x/main.js\<close> returns the module of \<open>x/b.js\<close>; the second returns the module
  of \<open>b.js\<close>, which the nested require stored under the key \<open>b\<close>, the cleaned form of
  \<open>./b\<close> that \<open>loadNative\<close> looks up first.
\<close>

theorem second_require_returns_other_module:
  "(case require_call 2 two_b_env [''<native>'', ''x/main.js''] ''./b'' init_state of
      Some (Inr first, t) \<Rightarrow>
        first = 2 \<and> modules t ''x/b.js'' = Some 2 \<and> modules t ''x/b'' = Some 2
        \<and> modules t ''b.js'' = Some 6 \<and> modules t ''b'' = Some 6
        \<and> events t = [Executed ''x/b.js'' 2, Executed ''b.js'' 6]
        \<and> (case require_call 2 two_b_env [''<native>'', ''x/main.js''] ''./b'' t of
              Some (Inr second, u) \<Rightarrow> second = 6 \<and> second \<noteq> first \<and> events u = events t
            | _ \<Rightarrow> False)
    | _ \<Rightarrow> False)"
  by (simp add: resolver_defs two_b_env_def numeral_2_eq_2)

text \<open>
  C9 says that after the first resolve of a native name every later resolve of a specifier
  cleaning to that name returns the handle of the native module. With a native loader
  registered as \<open>fs\<close> and a file \<open>fs.js\<close> that requires \<open>fs\<close>: a require of \<open>../fs\<close> from
  \<open>x/main.js\<close> loads the file, whose body is the first to resolve \<open>fs\<close> and gets the native
  module; when the file has loaded, \<open>resolve\<close> stores its handle under the request key, which
  is \<open>fs\<close> too, over the handle of the native module. A later require of \<open>fs\<close> returns the
  module of the file.
\<close>

theorem later_require_returns_other_than_native_handle:
  "find_loader native_file_env ''fs'' = Some [SetExport ''readFile'' (VNum 1)]
   \<and> request_key [''<native>'', ''x/main.js''] ''../fs'' = ''fs''
   \<and> (case require_call 2 native_file_env [''<native>'', ''x/main.js''] ''../fs'' init_state of
         Some (Inr file, t) \<Rightarrow>
           file = 2 \<and> events t = [Executed ''fs.js'' 2, NativeLoaded ''fs'' 4]
           \<and> GetProp t 4 ''exports'' = VRef 5 \<and> GetProp t 5 ''readFile'' = VNum 1
           \<and> GetProp t 2 ''exports'' = VRef 3 \<and> GetProp t 3 ''native'' = VRef 5
           \<and> modules t ''fs'' = Some 2
           \<and> (case require_call 2 native_file_env [''<native>'', ''x/main.js''] ''fs'' t of
                 Some (Inr later, u) \<Rightarrow> later = 2 \<and> later \<noteq> 4 \<and> events u = events t
               | _ \<Rightarrow> False)
       | _ \<Rightarrow> False)"
  by (simp add: resolver_defs request_key_def start_dir_def native_file_env_def numeral_2_eq_2)

text \<open>
  C10 says that after a require resolved by extension inference, a later require of either
  form returns the identical handle. With \<open>x/util.js\<close> requiring \<open>../util\<close> and a file
  \<open>util.js\<close>, the require of \<open>./util\<close> from \<open>x/main.js\<close> stores its handle under \<open>x/util\<close> and
  \<open>x/util.js\<close>, and later requires of \<open>./util.js\<close> and of \<open>./util\<close> from the same directory
  return the module of \<open>util.js\<close> instead.
\<close>

theorem later_require_of_either_form_returns_other_module:
  "(case require_call 2 two_util_env [''<native>'', ''x/main.js''] ''./util'' init_state of
      Some (Inr first, t) \<Rightarrow>
        first = 2 \<and> modules t ''x/util'' = Some 2 \<and> modules t ''x/util.js'' = Some 2
        \<and> (case require_call 2 two_util_env [''<native>'', ''x/main.js''] ''./util.js'' t of
              Some (Inr other, u) \<Rightarrow> other = 6 \<and> modules u ''util.js'' = Some 6
            | _ \<Rightarrow> False)
        \<and> (case require_call 2 two_util_env [''<native>'', ''x/main.js''] ''./util'' t of
              Some (Inr other, u) \<Rightarrow> other = 6 \<and> modules u ''util'' = Some 6
            | _ \<Rightarrow> False)
    | _ \<Rightarrow> False)"
  by (simp add: resolver_defs two_util_env_def numeral_2_eq_2)

section \<open>What the caches do guarantee\<close>

lemma filepathClean_nonempty: "filepathClean origPath \<noteq> []"
  by (simp add: filepathClean_def Clean_nonempty)

lemma try_each_loadModule_success:
  assumes "try_each (map (loadModule run) qs) err s = Some (Inr m, t)"
  shows "\<exists>q \<in> set qs. \<exists>s1. loadModule run q s1 = Some (Inr m, t)"
  using try_each_success [OF assms] by auto

lemma resolve_path_miss:
  assumes "is_path_specifier origPath"
    and "modules s (filepathClean origPath) = None"
    and "find_loader env (filepathClean origPath) = None"
    and "modules s (request_key frames origPath) = None"
  shows "resolve env run req frames origPath s =
     (case loadAsFileOrDirectory env run (request_key frames origPath) s of
        None \<Rightarrow> None
      | Some (Inl err, s2) \<Rightarrow> Some (Inl err, s2)
      | Some (Inr module, s2) \<Rightarrow>
          Some (Inr module, s2\<lparr>modules := (modules s2)(request_key frames origPath \<mapsto> module)\<rparr>))"
  using assms by (simp add: resolve_unfold loadNative_unfold)

lemma resolve_path_success:
  assumes spec: "is_path_specifier origPath"
    and native: "modules s (filepathClean origPath) = None"
      "find_loader env (filepathClean origPath) = None"
    and key: "modules s (request_key frames origPath) = None"
    and ok: "resolve env run req frames origPath s = Some (Inr m, t)"
  shows "\<exists>s2. loadAsFileOrDirectory env run (request_key frames origPath) s = Some (Inr m, s2)
           \<and> t = s2\<lparr>modules := (modules s2)(request_key frames origPath \<mapsto> m)\<rparr>"
  using ok unfolding resolve_path_miss [OF spec native key]
  by (cases "loadAsFileOrDirectory env run (request_key frames origPath) s" rule: outcome_cases)
     auto

text \<open>
  A native module is registered when its loader starts and stays registered under its name,
  with that handle, until \<open>loadNative\<close> returns or is left by a panic.
\<close>

lemma loadNative_registers:
  assumes req: "\<forall>frames spec. keeps cache_le (req frames spec)"
    and absent: "modules s path = None"
    and loader: "find_loader env path = Some ldr"
    and load: "loadNative env req frames path s = Some (r, t)"
  shows "modules t path = Some (nextObj s)"
    and "cache_le (entered_native path s) t"
    and "r = Returns (Inr (nextObj s)) \<or> (\<exists>err. r = Panics err)"
proof -
  from load absent loader obtain e where
    run: "call req frames (VRef (Suc (nextObj s))) ldr (entered_native path s) = Some (e, t)"
    and r: "r = (case e of None \<Rightarrow> Returns (Inr (nextObj s)) | Some err \<Rightarrow> Panics err)"
    by (auto simp: loadNative_unfold split: option.splits)
  from run show grow: "cache_le (entered_native path s) t"
    by (rule keepsD [OF call_keeps [OF step_closed_cache_le req]])
  then show "modules t path = Some (nextObj s)"
    by (auto simp: cache_le_def map_le_def dom_def)
  from r show "r = Returns (Inr (nextObj s)) \<or> (\<exists>err. r = Panics err)"
    by (cases e) auto
qed

text \<open>
  The part of C3 that holds. For every module file load that misses the path-keyed cache,
  \<open>loadModule\<close> creates a fresh handle whose \<open>exports\<close> is an empty record and stores it
  under the path of the file before the module body runs: the body is run on the state
  \<open>entered path s\<close>. Every require and every module body keeps the entries of the caches
  (\<open>cache_le\<close>), so in every later state of the execution \<open>loadModule\<close> of the same file
  path is a cache hit: it returns that same handle and leaves the state as it is, neither
  running the body again nor failing. Whether a require reaches \<open>loadModule\<close> of that path
  is decided in \<open>resolve\<close>, by the lookups that come first.
\<close>

theorem loadModule_registers_before_running:
  assumes absent: "modules s path = None"
  shows "loadModule run path s =
           (case run path (nextObj s) (entered path s) of
              None \<Rightarrow> None
            | Some (Some err, s3) \<Rightarrow> Some (Inl err, s3\<lparr>modules := (modules s3)(path := None)\<rparr>)
            | Some (None, s3) \<Rightarrow> Some (Inr (nextObj s), s3))
         \<and> (getCompiledSource env path = Some (Function body) \<longrightarrow>
              loadModuleFile env req path (nextObj s) (entered path s) =
                call req (body_frames path) (VRef (Suc (nextObj s))) body
                  ((entered path s)\<lparr>events := events s @ [Executed path (nextObj s)]\<rparr>))
         \<and> modules (entered path s) path = Some (nextObj s)
         \<and> objects (entered path s) (Suc (nextObj s)) = Some Map.empty
         \<and> (wf_state s \<longrightarrow>
              objects s (nextObj s) = None \<and> objects s (Suc (nextObj s)) = None
              \<and> (\<forall>k. modules s k \<noteq> Some (nextObj s))
              \<and> (\<forall>k. nodeModules s k \<noteq> Some (nextObj s)))
         \<and> (\<forall>t n env' frames spec r u.
               cache_le (entered path s) t \<and> require_call n env' frames spec t = Some (r, u)
               \<longrightarrow> cache_le (entered path s) u)
         \<and> (\<forall>t n env' fs jsExports stmts r u.
               cache_le (entered path s) t
               \<and> call (require_call n env') fs jsExports stmts t = Some (r, u)
               \<longrightarrow> cache_le (entered path s) u)
         \<and> (\<forall>t run'.
               cache_le (entered path s) t \<longrightarrow>
               loadModule run' path t = Some (Inr (nextObj s), t))"
proof (intro conjI allI impI)
  show "loadModule run path s =
      (case run path (nextObj s) (entered path s) of
         None \<Rightarrow> None
       | Some (Some err, s3) \<Rightarrow> Some (Inl err, s3\<lparr>modules := (modules s3)(path := None)\<rparr>)
       | Some (None, s3) \<Rightarrow> Some (Inr (nextObj s), s3))"
    by (rule loadModule_unfold [OF absent])
  show "modules (entered path s) path = Some (nextObj s)" by simp
  show "objects (entered path s) (Suc (nextObj s)) = Some Map.empty"
    by (rule entered_exports)
next
  assume "getCompiledSource env path = Some (Function body)"
  then show "loadModuleFile env req path (nextObj s) (entered path s) =
      call req (body_frames path) (VRef (Suc (nextObj s))) body
        ((entered path s)\<lparr>events := events s @ [Executed path (nextObj s)]\<rparr>)"
    by (simp add: loadModuleFile_def entered_exports)
next
  assume wf: "wf_state s"
  show "objects s (nextObj s) = None" "objects s (Suc (nextObj s)) = None"
    using wf by (rule wf_state_fresh)+
  fix k
  show "modules s k \<noteq> Some (nextObj s)" "nodeModules s k \<noteq> Some (nextObj s)"
    using wf by (rule wf_state_fresh)+
next
  fix t n env' frames spec r u
  assume "cache_le (entered path s) t \<and> require_call n env' frames spec t = Some (r, u)"
  then have "cache_le (entered path s) t" "cache_le t u"
    using require_call_keeps [OF step_closed_cache_le, of n env' frames spec]
    by (auto dest: keepsD)
  then show "cache_le (entered path s) u" by (rule cache_le_trans)
next
  fix t n env' fs jsExports stmts r u
  assume "cache_le (entered path s) t \<and> call (require_call n env') fs jsExports stmts t = Some (r, u)"
  moreover have "\<forall>frames spec. keeps cache_le (require_call n env' frames spec)"
    using require_call_keeps [OF step_closed_cache_le] by blast
  ultimately have "cache_le (entered path s) t" "cache_le t u"
    using call_keeps [OF step_closed_cache_le, of "require_call n env'" fs jsExports stmts]
    by (auto dest: keepsD)
  then show "cache_le (entered path s) u" by (rule cache_le_trans)
next
  fix t run'
  assume "cache_le (entered path s) t"
  then have "modules t path = Some (nextObj s)"
    by (auto simp: cache_le_def map_le_def dom_def)
  then show "loadModule run' path t = Some (Inr (nextObj s), t)"
    by (rule loadModule_hit)
qed

theorem loadModule_registers_before_running_witness:
  "modules init_state ''/A.js'' = None
   \<and> wf_state init_state
   \<and> cache_le (entered ''/A.js'' init_state) (entered ''/A.js'' init_state)
   \<and> loadModule (run_module 0 cyclic_env) ''/A.js'' (entered ''/A.js'' init_state) =
       Some (Inr 0, entered ''/A.js'' init_state)
   \<and> (case require_call 2 cyclic_env [''<native>'', ''/main.js''] ''./A'' init_state of
         Some (Inr a, t) \<Rightarrow>
           a = 2 \<and> modules t ''/A.js'' = Some 2 \<and> modules t ''/B.js'' = Some 6
           \<and> GetProp t 2 ''exports'' = VRef 3 \<and> GetProp t 6 ''exports'' = VRef 7
           \<and> GetProp t 7 ''a'' = VRef 3 \<and> GetProp t 3 ''b'' = VRef 7
           \<and> GetProp t 3 ''early'' = VNum 1 \<and> GetProp t 3 ''late'' = VNum 2
           \<and> events t = [Executed ''/A.js'' 2, Executed ''/B.js'' 6]
       | _ \<Rightarrow> False)"
proof -
  have absent: "modules init_state ''/A.js'' = None" by (simp add: init_state_def)
  have hit: "loadModule (run_module 0 cyclic_env) ''/A.js'' (entered ''/A.js'' init_state) =
      Some (Inr 0, entered ''/A.js'' init_state)"
  proof -
    have "\<forall>t run'. cache_le (entered ''/A.js'' init_state) t \<longrightarrow>
        loadModule run' ''/A.js'' t = Some (Inr (nextObj init_state), t)"
      using loadModule_registers_before_running [OF absent,
          where run = "run_module 0 cyclic_env" and env = cyclic_env and body = "[]"
            and req = "\<lambda>frames spec s. None"]
      apply -
      apply (elim conjE)
      apply assumption
      done
    then have "loadModule (run_module 0 cyclic_env) ''/A.js'' (entered ''/A.js'' init_state) =
        Some (Inr (nextObj init_state), entered ''/A.js'' init_state)"
      using cache_le_refl [of "entered ''/A.js'' init_state"] by blast
    then show ?thesis by (simp add: init_state_def)
  qed
  have run: "case require_call 2 cyclic_env [''<native>'', ''/main.js''] ''./A'' init_state of
         Some (Inr a, t) \<Rightarrow>
           a = 2 \<and> modules t ''/A.js'' = Some 2 \<and> modules t ''/B.js'' = Some 6
           \<and> GetProp t 2 ''exports'' = VRef 3 \<and> GetProp t 6 ''exports'' = VRef 7
           \<and> GetProp t 7 ''a'' = VRef 3 \<and> GetProp t 3 ''b'' = VRef 7
           \<and> GetProp t 3 ''early'' = VNum 1 \<and> GetProp t 3 ''late'' = VNum 2
           \<and> events t = [Executed ''/A.js'' 2, Executed ''/B.js'' 6]
       | _ \<Rightarrow> False"
    by (simp add: resolver_defs cyclic_env_def numeral_2_eq_2)
  from absent wf_init_state cache_le_refl hit run show ?thesis by (intro conjI)
qed

lemma loadModule_no_source_quiet:
  assumes "modules s q = None" and "getCompiledSource env q = None"
  shows "\<exists>t. loadModule (loadModuleFile env req) q s = Some (Inl (SourceError q), t)
           \<and> same_caches s t \<and> events t = events s"
proof -
  have "(modules s)(q := None) = modules s" using assms(1) by (simp add: fun_upd_idem)
  then show ?thesis
    using assms by (simp add: loadModule_unfold loadModuleFile_def same_caches_def)
qed

lemma try_each_reaches_registered:
  assumes "\<forall>c \<in> set before. modules s c = None \<and> getCompiledSource env c = None"
    and "modules s q = Some m"
  shows "\<exists>t. try_each (map (loadModule (loadModuleFile env req)) (before @ q # after)) err s =
              Some (Inr m, t)
           \<and> same_caches s t \<and> events t = events s"
  using assms
proof (induction before arbitrary: s err)
  case Nil
  then show ?case by (simp add: loadModule_hit same_caches_def)
next
  case (Cons c cs)
  from Cons.prems obtain u where
    first: "loadModule (loadModuleFile env req) c s = Some (Inl (SourceError c), u)"
    and same: "same_caches s u" and quiet: "events u = events s"
    using loadModule_no_source_quiet [of s c env req] by auto
  have "\<forall>c \<in> set cs. modules u c = None \<and> getCompiledSource env c = None"
    and "modules u q = Some m"
    using Cons.prems same by (simp_all add: same_caches_def)
  from Cons.IH [OF this, of "SourceError c"] obtain t where
    "try_each (map (loadModule (loadModuleFile env req)) (cs @ q # after)) (SourceError c) u =
       Some (Inr m, t)"
    and "same_caches u t" and "events t = events u"
    by blast
  then show ?case using first same quiet by (auto simp: same_caches_def)
qed

text \<open>
  The part of C3 that holds, through \<open>resolve\<close>. A relative or absolute require whose
  candidate files up to \<open>q\<close> do not exist, made while the module of the file \<open>q\<close> is
  registered (its body may still be executing), returns the registered handle and runs
  nothing, provided the path-keyed cache holds nothing under the cleaned specifier and under
  the request key and no native loader is registered for the cleaned specifier. The call
  stores the handle under the request key and changes nothing else in the caches.
\<close>

theorem cyclic_require_reaches_registered_module:
  assumes spec: "is_path_specifier origPath"
    and native: "modules s (filepathClean origPath) = None"
      "find_loader env (filepathClean origPath) = None"
    and key: "modules s (request_key frames origPath) = None"
    and cands: "path_candidates env (request_key frames origPath) = before @ q # after"
    and before: "list_all (\<lambda>c. modules s c = None \<and> getCompiledSource env c = None) before"
    and registered: "modules s q = Some m"
  shows "\<exists>t. require_call n env frames origPath s = Some (Inr m, t)
           \<and> modules t = (modules s)(request_key frames origPath \<mapsto> m)
           \<and> nodeModules t = nodeModules s
           \<and> events t = events s"
proof -
  let ?p = "request_key frames origPath"
  let ?req = "nested_require n env"
  have absent: "\<forall>c \<in> set before. modules s c = None \<and> getCompiledSource env c = None"
    using before by (simp add: list_all_iff)
  from try_each_reaches_registered [OF absent registered, of ?req after InvalidModuleError]
  obtain s2 where
    "try_each (map (loadModule (loadModuleFile env ?req)) (before @ q # after))
        InvalidModuleError s = Some (Inr m, s2)"
    and same: "same_caches s s2" and quiet: "events s2 = events s"
    by blast
  then have load: "loadAsFileOrDirectory env (run_module n env) ?p s = Some (Inr m, s2)"
    using cands
    by (simp add: loadAsFileOrDirectory_try_each [of env _ ?p s InvalidModuleError]
        path_candidates_def run_module_def)
  have "require_call n env frames origPath s =
      Some (Inr m, s2\<lparr>modules := (modules s2)(?p \<mapsto> m)\<rparr>)"
    unfolding require_call_def resolve_path_miss [OF spec native key] using load by simp
  then show ?thesis using same quiet by (simp add: same_caches_def)
qed

theorem cyclic_require_reaches_registered_module_witness:
  "is_path_specifier ''./A''
   \<and> modules (entered ''/A.js'' init_state) (filepathClean ''./A'') = None
   \<and> find_loader cyclic_env (filepathClean ''./A'') = None
   \<and> request_key [''<native>'', ''/B.js''] ''./A'' = ''/A''
   \<and> modules (entered ''/A.js'' init_state) (request_key [''<native>'', ''/B.js''] ''./A'') = None
   \<and> path_candidates cyclic_env (request_key [''<native>'', ''/B.js''] ''./A'') =
       [''/A''] @ ''/A.js'' # [''/A.json'', ''/A/index.js'', ''/A/index.json'']
   \<and> list_all (\<lambda>c. modules (entered ''/A.js'' init_state) c = None
                     \<and> getCompiledSource cyclic_env c = None) [''/A'']
   \<and> modules (entered ''/A.js'' init_state) ''/A.js'' = Some 0
   \<and> (\<exists>t. require_call 0 cyclic_env [''<native>'', ''/B.js''] ''./A''
              (entered ''/A.js'' init_state) = Some (Inr 0, t)
          \<and> modules t = (modules (entered ''/A.js'' init_state))(''/A'' \<mapsto> 0)
          \<and> events t = [])"
proof -
  let ?s = "entered ''/A.js'' init_state"
  let ?frames = "[''<native>'', ''/B.js'']"
  have spec: "is_path_specifier ''./A''"
    by (simp add: is_path_specifier_def HasPrefix_def)
  have key_is: "request_key ?frames ''./A'' = ''/A''"
    by (simp add: request_key_def start_dir_def resolver_defs)
  have native: "modules ?s (filepathClean ''./A'') = None"
      "find_loader cyclic_env (filepathClean ''./A'') = None"
    by (simp_all add: resolver_defs cyclic_env_def)
  have key: "modules ?s (request_key ?frames ''./A'') = None"
    by (simp add: key_is init_state_def)
  have cands: "path_candidates cyclic_env (request_key ?frames ''./A'') =
      [''/A''] @ ''/A.js'' # [''/A.json'', ''/A/index.js'', ''/A/index.json'']"
    by (simp add: key_is path_candidates_def file_candidates_def directory_candidates_def
        index_candidates_def manifest_main_def cyclic_env_def resolver_defs)
  have before: "list_all (\<lambda>c. modules ?s c = None \<and> getCompiledSource cyclic_env c = None)
      [''/A'']"
    by (simp add: init_state_def cyclic_env_def mk_env_def)
  have registered: "modules ?s ''/A.js'' = Some 0"
    by (simp add: init_state_def)
  from cyclic_require_reaches_registered_module [OF spec native key cands before registered, of 0]
  have "\<exists>t. require_call 0 cyclic_env ?frames ''./A'' ?s = Some (Inr 0, t)
          \<and> modules t = (modules ?s)(''/A'' \<mapsto> 0)
          \<and> events t = []"
    by (auto simp: key_is init_state_def)
  with spec native key_is key cands before registered show ?thesis by (intro conjI)
qed

text \<open>
  The part of C9 that holds. When the cleaned specifier has a registered native loader and
  no entry in the path-keyed cache, \<open>resolve\<close> stores a fresh handle under the cleaned
  specifier and then runs the loader, which already finds the handle there. When the call
  has come back, with a result or with the exception of the loader, the handle is cached under
  the name; after any further sequence of require calls every resolve of a specifier that
  cleans to the name returns that handle and leaves the state unchanged, and the log holds
  one call of the loader.
\<close>

theorem native_loader_runs_once:
  assumes clean: "filepathClean origPath = name"
    and absent: "modules s name = None"
    and loader: "find_loader env name = Some ldr"
    and first: "require_call n env frames origPath s = Some (r, s1)"
  shows "call (nested_require n env) frames (VRef (Suc (nextObj s))) ldr (entered_native name s) =
           Some (case r of Inl err \<Rightarrow> Some err | Inr m \<Rightarrow> None, s1)
         \<and> (case r of Inl err \<Rightarrow> True | Inr m \<Rightarrow> m = nextObj s)
         \<and> modules (entered_native name s) name = Some (nextObj s)
         \<and> modules s1 name = Some (nextObj s)
         \<and> native_loads name (events s1) = Suc (native_loads name (events s))
         \<and> (\<forall>k env' reqs t.
               require_seq k env' reqs s1 = Some t
               \<longrightarrow> native_loads name (events t) = Suc (native_loads name (events s))
                 \<and> (\<forall>env'' run' req' frames' origPath'.
                       filepathClean origPath' = name \<longrightarrow>
                       resolve env'' run' req' frames' origPath' t = Some (Inr (nextObj s), t)))"
proof -
  let ?req = "nested_require n env"
  let ?s0 = "entered_native name s"
  have req: "\<forall>frames spec. keeps native_once (?req frames spec)"
    using nested_require_keeps [OF step_closed_native_once] by blast
  obtain c where load: "loadNative env ?req frames name s = Some (c, s1)"
    and r: "r = (case c of Panics err \<Rightarrow> Inl err | Returns x \<Rightarrow> x)"
    using first clean
    by (cases "loadNative env ?req frames name s" rule: native_cases)
       (auto simp: require_call_def resolve_unfold dest: loadNative_failure
          simp: loadNative_unfold absent loader split: option.splits)
  from load absent loader obtain e where
    run: "call ?req frames (VRef (Suc (nextObj s))) ldr ?s0 = Some (e, s1)"
    and c: "c = (case e of None \<Rightarrow> Returns (Inr (nextObj s)) | Some err \<Rightarrow> Panics err)"
    by (auto simp: loadNative_unfold split: option.splits)
  have once: "native_once ?s0 s1"
    using run by (rule keepsD [OF call_keeps [OF step_closed_native_once req]])
  have cached0: "modules ?s0 name = Some (nextObj s)" by simp
  have cached: "modules s1 name = Some (nextObj s)"
    using once by (auto simp: native_once_def cache_le_def map_le_def dom_def)
  have count: "native_loads name (events s1) = Suc (native_loads name (events s))"
    using once cached0 by (simp add: native_once_def native_loads_def)
  have later: "native_loads name (events t) = Suc (native_loads name (events s))
      \<and> (\<forall>env'' run' req' frames' origPath'.
            filepathClean origPath' = name \<longrightarrow>
            resolve env'' run' req' frames' origPath' t = Some (Inr (nextObj s), t))"
    if seq: "require_seq k env' reqs s1 = Some t" for k env' reqs t
  proof -
    have after: "native_once s1 t"
      using step_closed_native_once seq by (rule require_seq_keeps)
    then have t: "modules t name = Some (nextObj s)"
      using cached by (auto simp: native_once_def cache_le_def map_le_def dom_def)
    have "native_loads name (events t) = native_loads name (events s1)"
      using after cached by (simp add: native_once_def)
    then show ?thesis using count t by (auto intro: resolve_hit)
  qed
  show ?thesis
  proof (intro conjI allI impI)
    show "call ?req frames (VRef (Suc (nextObj s))) ldr ?s0 =
        Some (case r of Inl err \<Rightarrow> Some err | Inr m \<Rightarrow> None, s1)"
      using run r c by (cases e) simp_all
    show "case r of Inl err \<Rightarrow> True | Inr m \<Rightarrow> m = nextObj s"
      using r c by (cases e) simp_all
    show "modules ?s0 name = Some (nextObj s)" by (rule cached0)
    show "modules s1 name = Some (nextObj s)" by (rule cached)
    show "native_loads name (events s1) = Suc (native_loads name (events s))" by (rule count)
  next
    fix k env' reqs t
    assume "require_seq k env' reqs s1 = Some t"
    then show "native_loads name (events t) = Suc (native_loads name (events s))"
      using later by blast
  next
    fix k env' reqs t env'' run' req' frames' origPath'
    assume "require_seq k env' reqs s1 = Some t" and "filepathClean origPath' = name"
    then show "resolve env'' run' req' frames' origPath' t = Some (Inr (nextObj s), t)"
      using later by blast
  qed
qed

theorem native_loader_runs_once_witness:
  "filepathClean ''./fs'' = ''fs''
   \<and> modules init_state ''fs'' = None
   \<and> find_loader native_env ''fs'' =
       Some [ExportRequire ''self'' ''fs'', SetExport ''readFile'' (VNum 1)]
   \<and> (case require_call 1 native_env [''<native>'', ''/app/main.js''] ''./fs'' init_state of
         Some (Inr fs, s1) \<Rightarrow>
           fs = 0 \<and> modules s1 ''fs'' = Some 0
           \<and> native_loads ''fs'' (events s1) = 1
           \<and> events s1 = [NativeLoaded ''fs'' 0]
           \<and> GetProp s1 1 ''self'' = VRef 1 \<and> GetProp s1 1 ''readFile'' = VNum 1
           \<and> (case require_seq 1 native_env [([''<native>'', ''/app/main.js''], ''./lib'')] s1 of
                 Some t \<Rightarrow>
                   native_loads ''fs'' (events t) = 1
                   \<and> modules t ''/app/lib.js'' = Some 4
                   \<and> GetProp t 5 ''fs'' = VRef 1
                   \<and> (case resolve native_env (run_module 1 native_env)
                               (nested_require 1 native_env) [] ''fs'' t of
                         Some (Inr again, t') \<Rightarrow> again = 0 \<and> events t' = events t
                       | _ \<Rightarrow> False)
               | None \<Rightarrow> False)
       | _ \<Rightarrow> False)"
proof -
  let ?first = "require_call 1 native_env [''<native>'', ''/app/main.js''] ''./fs'' init_state"
  have clean: "filepathClean ''./fs'' = ''fs''" by (simp add: resolver_defs)
  have absent: "modules init_state ''fs'' = None" by (simp add: init_state_def)
  have loader: "find_loader native_env ''fs'' =
      Some [ExportRequire ''self'' ''fs'', SetExport ''readFile'' (VNum 1)]"
    by (simp add: find_loader_def native_env_def mk_env_def)
  have run: "case ?first of
         Some (Inr fs, s1) \<Rightarrow>
           fs = 0
           \<and> events s1 = [NativeLoaded ''fs'' 0]
           \<and> GetProp s1 1 ''self'' = VRef 1 \<and> GetProp s1 1 ''readFile'' = VNum 1
           \<and> (case require_seq 1 native_env [([''<native>'', ''/app/main.js''], ''./lib'')] s1 of
                 Some t \<Rightarrow>
                   native_loads ''fs'' (events t) = 1
                   \<and> modules t ''/app/lib.js'' = Some 4
                   \<and> GetProp t 5 ''fs'' = VRef 1
                   \<and> (case resolve native_env (run_module 1 native_env)
                               (nested_require 1 native_env) [] ''fs'' t of
                         Some (Inr again, t') \<Rightarrow> again = 0 \<and> events t' = events t
                       | _ \<Rightarrow> False)
               | None \<Rightarrow> False)
       | _ \<Rightarrow> False"
    by (simp add: resolver_defs native_env_def native_loads_def)
  have "case ?first of
         Some (Inr fs, s1) \<Rightarrow>
           modules s1 ''fs'' = Some 0 \<and> native_loads ''fs'' (events s1) = 1
       | _ \<Rightarrow> False"
  proof (cases ?first rule: outcome_cases)
    case Diverges
    then show ?thesis using run by simp
  next
    case (Fails err s1)
    then show ?thesis using run by simp
  next
    case (Succeeds m s1)
    from native_loader_runs_once [OF clean absent loader Succeeds]
    have "modules s1 ''fs'' = Some (nextObj init_state)"
      and "native_loads ''fs'' (events s1) = Suc (native_loads ''fs'' (events init_state))"
      by blast+
    then show ?thesis using Succeeds by (simp add: init_state_def native_loads_def)
  qed
  with run have "case ?first of
         Some (Inr fs, s1) \<Rightarrow>
           fs = 0 \<and> modules s1 ''fs'' = Some 0
           \<and> native_loads ''fs'' (events s1) = 1
           \<and> events s1 = [NativeLoaded ''fs'' 0]
           \<and> GetProp s1 1 ''self'' = VRef 1 \<and> GetProp s1 1 ''readFile'' = VNum 1
           \<and> (case require_seq 1 native_env [([''<native>'', ''/app/main.js''], ''./lib'')] s1 of
                 Some t \<Rightarrow>
                   native_loads ''fs'' (events t) = 1
                   \<and> modules t ''/app/lib.js'' = Some 4
                   \<and> GetProp t 5 ''fs'' = VRef 1
                   \<and> (case resolve native_env (run_module 1 native_env)
                               (nested_require 1 native_env) [] ''fs'' t of
                         Some (Inr again, t') \<Rightarrow> again = 0 \<and> events t' = events t
                       | _ \<Rightarrow> False)
               | None \<Rightarrow> False)
       | _ \<Rightarrow> False"
    by (cases ?first rule: outcome_cases) simp_all
  with clean absent loader show ?thesis by (intro conjI)
qed

text \<open>
  What C1 meets in general: when the cleaned specifier has a registered native loader, the
  result of \<open>resolve\<close> depends on the specifier only through its cleaned form; the prefix
  the specifier was written with is never looked at.
\<close>

theorem native_name_resolves_alike:
  assumes "filepathClean origPath = filepathClean origPath'"
    and "find_loader env (filepathClean origPath) = Some ldr"
  shows "resolve env run req frames origPath s = resolve env run req frames origPath' s"
proof -
  have "loadNative env req frames (filepathClean origPath) s \<noteq> Some (Returns (Inl err), t)"
    for err t
    using assms(2) by (auto simp: loadNative_unfold split: option.splits)
  then show ?thesis
    using assms(1)
    by (cases "loadNative env req frames (filepathClean origPath) s" rule: native_cases)
       (simp_all add: resolve_unfold)
qed

theorem native_name_resolves_alike_witness:
  "filepathClean ''./fs'' = filepathClean ''fs''
   \<and> find_loader shadow_env (filepathClean ''./fs'') = Some [SetExport ''readFile'' (VNum 1)]
   \<and> is_path_specifier ''./fs'' \<and> \<not> is_path_specifier ''fs''
   \<and> require_call 1 shadow_env [''<native>'', ''/app/main.js''] ''./fs'' init_state =
       require_call 1 shadow_env [''<native>'', ''/app/main.js''] ''fs'' init_state"
proof -
  have clean: "filepathClean ''./fs'' = filepathClean ''fs''" by (simp add: resolver_defs)
  have loader: "find_loader shadow_env (filepathClean ''./fs'') =
      Some [SetExport ''readFile'' (VNum 1)]"
    by (simp add: resolver_defs shadow_env_def)
  have prefix: "is_path_specifier ''./fs''" "\<not> is_path_specifier ''fs''"
    by (simp_all add: is_path_specifier_def HasPrefix_def)
  have "require_call 1 shadow_env [''<native>'', ''/app/main.js''] ''./fs'' init_state =
      require_call 1 shadow_env [''<native>'', ''/app/main.js''] ''fs'' init_state"
    unfolding require_call_def by (rule native_name_resolves_alike [OF clean loader])
  with clean loader prefix show ?thesis by (intro conjI)
qed

text \<open>
  The part of C10 that holds. A relative or absolute require that misses the native lookup
  and the request key and then succeeds leaves its handle in the path-keyed cache under the
  request key and under the path of one of the candidate files of that key.
\<close>

theorem resolve_stores_two_keys:
  assumes spec: "is_path_specifier origPath"
    and native: "modules s (filepathClean origPath) = None"
      "find_loader env (filepathClean origPath) = None"
    and key: "modules s (request_key frames origPath) = None"
    and ok: "require_call n env frames origPath s = Some (Inr m, t)"
  shows "modules t (request_key frames origPath) = Some m
         \<and> (\<exists>q \<in> set (path_candidates env (request_key frames origPath)). modules t q = Some m)"
proof -
  let ?p = "request_key frames origPath"
  let ?run = "run_module n env"
  have "resolve env ?run (nested_require n env) frames origPath s = Some (Inr m, t)"
    using ok by (simp add: require_call_def)
  from resolve_path_success [OF spec native key this] obtain s2 where
    load: "loadAsFileOrDirectory env ?run ?p s = Some (Inr m, s2)"
    and t: "t = s2\<lparr>modules := (modules s2)(?p \<mapsto> m)\<rparr>"
    by blast
  from load have "try_each (map (loadModule ?run) (path_candidates env ?p)) InvalidModuleError s =
      Some (Inr m, s2)"
    by (simp add: loadAsFileOrDirectory_try_each [of env ?run ?p s InvalidModuleError]
        path_candidates_def)
  then obtain q s1 where q: "q \<in> set (path_candidates env ?p)"
    and "loadModule ?run q s1 = Some (Inr m, s2)"
    using try_each_loadModule_success by blast
  then have "modules s2 q = Some m"
    using loadModule_cached [of ?run q s1 m s2] run_module_mono by blast
  then have stored: "modules t q = Some m" using t by simp
  have "modules t ?p = Some m" using t by simp
  moreover have "\<exists>q \<in> set (path_candidates env ?p). modules t q = Some m"
    using q stored by (rule bexI [rotated])
  ultimately show ?thesis by (rule conjI)
qed

theorem resolve_stores_two_keys_witness:
  "is_path_specifier ''./m''
   \<and> modules init_state (filepathClean ''./m'') = None
   \<and> find_loader files_env (filepathClean ''./m'') = None
   \<and> request_key [''<native>'', ''/main.js''] ''./m'' = ''/m''
   \<and> modules init_state (request_key [''<native>'', ''/main.js''] ''./m'') = None
   \<and> (case require_call 0 files_env [''<native>'', ''/main.js''] ''./m'' init_state of
         Some (Inr m, t) \<Rightarrow> modules t ''/m'' = Some m \<and> modules t ''/m.js'' = Some m
       | _ \<Rightarrow> False)"
proof -
  let ?frames = "[''<native>'', ''/main.js'']"
  have spec: "is_path_specifier ''./m''"
    by (simp add: is_path_specifier_def HasPrefix_def)
  have native: "modules init_state (filepathClean ''./m'') = None"
      "find_loader files_env (filepathClean ''./m'') = None"
    by (simp_all add: init_state_def find_loader_def files_env_def mk_env_def)
  have key_is: "request_key ?frames ''./m'' = ''/m''"
    by (simp add: request_key_def start_dir_def resolver_defs)
  have key: "modules init_state (request_key ?frames ''./m'') = None"
    by (simp add: init_state_def)
  have shape: "case require_call 0 files_env ?frames ''./m'' init_state of
         Some (Inr m, t) \<Rightarrow> modules t ''/m.js'' = Some m
       | _ \<Rightarrow> False"
    by (simp add: resolver_defs files_env_def)
  have "case require_call 0 files_env ?frames ''./m'' init_state of
         Some (Inr m, t) \<Rightarrow> modules t ''/m'' = Some m \<and> modules t ''/m.js'' = Some m
       | _ \<Rightarrow> False"
  proof (cases "require_call 0 files_env ?frames ''./m'' init_state" rule: outcome_cases)
    case Diverges
    then show ?thesis using shape by simp
  next
    case (Fails err t)
    then show ?thesis using shape by simp
  next
    case (Succeeds m t)
    from resolve_stores_two_keys [OF spec native key Succeeds]
    have "modules t ''/m'' = Some m" by (simp add: key_is)
    then show ?thesis using shape Succeeds by simp
  qed
  with spec native key_is key show ?thesis by (intro conjI)
qed

text \<open>
  The part of C4 that holds. After a relative or absolute require has returned a handle, the
  same require from the same frames returns that handle again and leaves the state, log
  included, unchanged, provided the path-keyed cache holds under the cleaned specifier
  either nothing or that handle.
\<close>

theorem repeated_resolve_same_handle:
  assumes spec: "is_path_specifier origPath"
    and first: "require_call n env frames origPath s = Some (Inr m, t)"
    and clean_key: "modules t (filepathClean origPath) = None
                    \<or> modules t (filepathClean origPath) = Some m"
  shows "require_call n' env frames origPath t = Some (Inr m, t)"
proof (cases "modules t (filepathClean origPath)")
  case (Some m')
  then have "modules t (filepathClean origPath) = Some m" using clean_key by simp
  then show ?thesis unfolding require_call_def by (intro resolve_hit) simp_all
next
  case None
  let ?path = "filepathClean origPath"
  let ?p = "request_key frames origPath"
  let ?req = "nested_require n env"
  have grow: "cache_le s t"
    using first by (rule keepsD [OF require_call_keeps [OF step_closed_cache_le]])
  then have absent: "modules s ?path = None"
    using None by (auto simp: cache_le_def map_le_def dom_def)
  have res: "resolve env (run_module n env) ?req frames origPath s = Some (Inr m, t)"
    using first by (simp add: require_call_def)
  have no_loader: "find_loader env ?path = None"
  proof (rule ccontr)
    assume "find_loader env ?path \<noteq> None"
    then obtain ldr where ldr: "find_loader env ?path = Some ldr" by auto
    obtain c where load: "loadNative env ?req frames ?path s = Some (c, t)"
      using res absent ldr
      by (cases "loadNative env ?req frames ?path s" rule: native_cases)
         (auto simp: resolve_unfold loadNative_unfold split: option.splits)
    have "\<forall>frames spec. keeps cache_le (?req frames spec)"
      using nested_require_mono by blast
    from loadNative_registers(1) [OF this absent ldr load]
    show False using None by simp
  qed
  have stored: "modules t ?p = Some m"
  proof (cases "modules s ?p")
    case (Some m0)
    then show ?thesis using res spec absent no_loader
      by (simp add: resolve_unfold loadNative_unfold)
  next
    case miss: None
    from resolve_path_success [OF spec absent no_loader miss res]
    obtain s2 where "t = s2\<lparr>modules := (modules s2)(?p \<mapsto> m)\<rparr>" by blast
    then show ?thesis by simp
  qed
  show ?thesis
    using spec None no_loader stored
    by (simp add: require_call_def resolve_unfold loadNative_unfold)
qed

theorem repeated_resolve_same_handle_witness:
  "is_path_specifier ''./m''
   \<and> (case require_call 0 files_env [''<native>'', ''/main.js''] ''./m'' init_state of
         Some (Inr m, t) \<Rightarrow>
           modules t (filepathClean ''./m'') = None
           \<and> require_call 0 files_env [''<native>'', ''/main.js''] ''./m'' t = Some (Inr m, t)
       | _ \<Rightarrow> False)"
proof -
  let ?frames = "[''<native>'', ''/main.js'']"
  have spec: "is_path_specifier ''./m''"
    by (simp add: is_path_specifier_def HasPrefix_def)
  have shape: "case require_call 0 files_env ?frames ''./m'' init_state of
         Some (Inr m, t) \<Rightarrow> modules t (filepathClean ''./m'') = None
       | _ \<Rightarrow> False"
    by (simp add: resolver_defs files_env_def)
  have "case require_call 0 files_env ?frames ''./m'' init_state of
         Some (Inr m, t) \<Rightarrow>
           modules t (filepathClean ''./m'') = None
           \<and> require_call 0 files_env ?frames ''./m'' t = Some (Inr m, t)
       | _ \<Rightarrow> False"
  proof (cases "require_call 0 files_env ?frames ''./m'' init_state" rule: outcome_cases)
    case Diverges
    then show ?thesis using shape by simp
  next
    case (Fails err t)
    then show ?thesis using shape by simp
  next
    case (Succeeds m t)
    then have absent: "modules t (filepathClean ''./m'') = None" using shape by simp
    then have "modules t (filepathClean ''./m'') = None
        \<or> modules t (filepathClean ''./m'') = Some m" by simp
    from repeated_resolve_same_handle [OF spec Succeeds this, of 0]
    show ?thesis using Succeeds absent by simp
  qed
  with spec show ?thesis by (intro conjI)
qed

text \<open>
  The eviction \<open>loadModule\<close> does perform: it fails only on a path that had no entry, and
  leaves none.
\<close>

theorem loadModule_evicts_failed_load:
  assumes "loadModule run path s = Some (Inl err, t)"
  shows "modules s path = None \<and> modules t path = None"
proof (cases "modules s path")
  case None
  then show ?thesis using assms
    by (auto simp: loadModule_unfold split: option.splits)
next
  case (Some m)
  then show ?thesis using assms by (simp add: loadModule_hit)
qed

theorem loadModule_evicts_failed_load_witness:
  "(case loadModule (run_module 0 throwing_env) ''/bad.js'' init_state of
      Some (Inl err, t) \<Rightarrow>
        err = Exception ''boom'' \<and> modules init_state ''/bad.js'' = None
        \<and> modules t ''/bad.js'' = None \<and> GetProp t 1 ''x'' = VNum 1
    | _ \<Rightarrow> False)"
proof -
  let ?load = "loadModule (run_module 0 throwing_env) ''/bad.js'' init_state"
  have shape: "case ?load of
      Some (Inl err, t) \<Rightarrow> err = Exception ''boom'' \<and> GetProp t 1 ''x'' = VNum 1
    | _ \<Rightarrow> False"
    by (simp add: resolver_defs throwing_env_def)
  show ?thesis
  proof (cases ?load rule: outcome_cases)
    case Diverges
    then show ?thesis using shape by simp
  next
    case (Fails err t)
    from loadModule_evicts_failed_load [OF Fails]
    show ?thesis using shape Fails by simp
  next
    case (Succeeds m t)
    then show ?thesis using shape by simp
  qed
qed

text \<open>
  A require call never removes or changes an entry of either cache that was there when it
  started.
\<close>

theorem require_call_caches_grow:
  assumes "require_call n env frames spec s = Some (r, t)"
  shows "modules s \<subseteq>\<^sub>m modules t \<and> nodeModules s \<subseteq>\<^sub>m nodeModules t"
  using keepsD [OF require_call_keeps [OF step_closed_cache_le] assms]
  by (simp add: cache_le_def)

theorem require_call_caches_grow_witness:
  "(case require_call 0 files_env [''<native>'', ''/main.js''] ''./m''
          (entered ''/keep'' init_state) of
      Some (r, t) \<Rightarrow>
        modules (entered ''/keep'' init_state) \<subseteq>\<^sub>m modules t
        \<and> nodeModules (entered ''/keep'' init_state) \<subseteq>\<^sub>m nodeModules t
        \<and> modules t ''/keep'' = Some 0 \<and> modules t ''/m.js'' = Some 4
    | None \<Rightarrow> False)"
proof -
  let ?call = "require_call 0 files_env [''<native>'', ''/main.js''] ''./m''
      (entered ''/keep'' init_state)"
  have shape: "case ?call of
      Some (r, t) \<Rightarrow> modules t ''/keep'' = Some 0 \<and> modules t ''/m.js'' = Some 4
    | None \<Rightarrow> False"
    by (simp add: resolver_defs files_env_def entered_def)
  show ?thesis
  proof (cases ?call)
    case None
    then show ?thesis using shape by simp
  next
    case (Some a)
    obtain r t where a: "a = (r, t)" by (cases a)
    from require_call_caches_grow [OF Some [unfolded a]]
    show ?thesis using shape Some a by simp
  qed
qed

text \<open>
  A require call keeps every cached handle and every heap object below the allocation
  counter, so the handle a later load creates is new.
\<close>

theorem require_call_keeps_wf_state:
  assumes "wf_state s" and "require_call n env frames spec s = Some (r, t)"
  shows "wf_state t"
  using assms(1) keepsD [OF require_call_keeps [OF step_closed_keeps_wf] assms(2)]
  by (simp add: keeps_wf_def)

theorem require_call_keeps_wf_state_witness:
  "wf_state init_state
   \<and> (case require_call 0 files_env [''<native>'', ''/main.js''] ''./m'' init_state of
         Some (r, t) \<Rightarrow> wf_state t \<and> nextObj t = 4
       | None \<Rightarrow> False)"
proof -
  let ?call = "require_call 0 files_env [''<native>'', ''/main.js''] ''./m'' init_state"
  have shape: "case ?call of Some (r, t) \<Rightarrow> nextObj t = 4 | None \<Rightarrow> False"
    by (simp add: resolver_defs files_env_def)
  have "case ?call of Some (r, t) \<Rightarrow> wf_state t \<and> nextObj t = 4 | None \<Rightarrow> False"
  proof (cases ?call)
    case None
    then show ?thesis using shape by simp
  next
    case (Some a)
    obtain r t where a: "a = (r, t)" by (cases a)
    from require_call_keeps_wf_state [OF wf_init_state Some [unfolded a]]
    show ?thesis using shape Some a by simp
  qed
  with wf_init_state show ?thesis by (intro conjI)
qed

lemma same_caches_refl: "same_caches s s"
  by (simp add: same_caches_def)

lemma same_caches_trans: "same_caches s t \<Longrightarrow> same_caches t u \<Longrightarrow> same_caches s u"
  by (simp add: same_caches_def)

lemma call_without_require:
  "call (\<lambda>frames spec s. None) fs jsExports body s = Some (r, t) \<Longrightarrow> same_caches s t"
proof (induction body arbitrary: s)
  case Nil
  then show ?case by (simp add: same_caches_def)
next
  case (Cons st body)
  from Cons.prems obtain e u where
    st: "exec_stmt (\<lambda>frames spec s. None) fs jsExports st s = Some (e, u)"
    by (auto split: option.splits)
  then have su: "same_caches s u"
    by (cases st) (auto simp: assign_export_def same_caches_def split: val.splits)
  show ?case
  proof (cases e)
    case None
    then have "call (\<lambda>frames spec s. None) fs jsExports body u = Some (r, t)"
      using Cons.prems st by simp
    then have "same_caches u t" by (rule Cons.IH)
    with su show ?thesis by (rule same_caches_trans)
  next
    case (Some err)
    then show ?thesis using Cons.prems st su by simp
  qed
qed

lemma run_module_0_same: "keeps same_caches (run_module 0 env path m)"
proof (rule keepsI)
  fix s r t assume "run_module 0 env path m s = Some (r, t)"
  then show "same_caches s t"
    by (auto simp: run_module_def loadModuleFile_def same_caches_def
        split: option.splits program.splits dest!: call_without_require)
qed

lemma loadModule_failure_same:
  assumes run: "\<forall>path m. keeps same_caches (run path m)"
    and fail: "loadModule run path s = Some (Inl err, t)"
  shows "same_caches s t"
proof (cases "modules s path")
  case (Some m)
  then show ?thesis using fail by (simp add: loadModule_hit)
next
  case None
  then obtain s3 where "run path (nextObj s) (entered path s) = Some (Some err, s3)"
    and t: "t = s3\<lparr>modules := (modules s3)(path := None)\<rparr>"
    using fail by (auto simp: loadModule_unfold split: option.splits)
  then have "same_caches (entered path s) s3" using run by (auto dest: keepsD)
  then show ?thesis using None t by (auto simp: same_caches_def)
qed

lemma try_each_failure_same:
  assumes fs: "\<forall>f \<in> set fs. \<forall>s e t. f s = Some (Inl e, t) \<longrightarrow> same_caches s t"
    and fail: "try_each fs err0 s = Some (Inl err, t)"
  shows "same_caches s t"
  using assms
proof (induction fs arbitrary: err0 s)
  case Nil
  then show ?case by (simp add: same_caches_def)
next
  case (Cons f fs)
  show ?case
  proof (cases "f s" rule: outcome_cases)
    case Diverges
    then show ?thesis using Cons.prems by simp
  next
    case (Fails err1 s1)
    then have "same_caches s s1" using Cons.prems(1) by auto
    moreover have "same_caches s1 t"
      using Cons.IH [of err1 s1] Cons.prems Fails by auto
    ultimately show ?thesis by (rule same_caches_trans)
  next
    case (Succeeds module s1)
    then show ?thesis using Cons.prems by simp
  qed
qed

lemma loadAsFileOrDirectory_failure_same:
  assumes run: "\<forall>path m. keeps same_caches (run path m)"
    and fail: "loadAsFileOrDirectory env run p s = Some (Inl err, t)"
  shows "same_caches s t"
proof -
  have "try_each (map (loadModule run) (path_candidates env p)) InvalidModuleError s =
      Some (Inl err, t)"
    using fail
    by (simp add: loadAsFileOrDirectory_try_each [of env run p s InvalidModuleError]
        path_candidates_def)
  then show ?thesis
    by (rule try_each_failure_same [rotated]) (auto dest: loadModule_failure_same [OF run])
qed

lemma loadNodeModules_failure_same:
  assumes run: "\<forall>path m. keeps same_caches (run path m)"
    and fail: "loadNodeModules env run path start s = Some (Inl err, t)"
  shows "same_caches s t"
proof -
  obtain err' where "try_each (map (loadNodeModule env run path)
      (globalFolders env @ ascent_dirs start)) InvalidModuleError s = Some (Inl err', t)"
    using fail
    by (auto simp: loadNodeModules_try_each [of env run path start s InvalidModuleError]
        not_found_def split: option.splits sum.splits)
  then show ?thesis
    by (rule try_each_failure_same [rotated])
       (auto simp: loadNodeModule_def dest: loadAsFileOrDirectory_failure_same [OF run])
qed

text \<open>
  The part of C2 that holds. A require call that fails, for a specifier whose cleaned form has
  no native loader, and during which no module body issues a require of its own, leaves both
  caches exactly as they were.
\<close>

theorem failed_require_restores_caches:
  assumes fail: "require_call 0 env frames origPath s = Some (Inl err, t)"
    and no_loader: "find_loader env (filepathClean origPath) = None"
  shows "modules t = modules s \<and> nodeModules t = nodeModules s"
proof -
  let ?run = "run_module 0 env"
  let ?req = "nested_require 0 env"
  let ?path = "filepathClean origPath"
  have run: "\<forall>path m. keeps same_caches (?run path m)"
    using run_module_0_same by blast
  have res: "resolve env ?run ?req frames origPath s = Some (Inl err, t)"
    using fail by (simp add: require_call_def)
  have "same_caches s t"
  proof (cases "modules s ?path")
    case (Some m)
    then show ?thesis using res by (simp add: resolve_unfold loadNative_unfold)
  next
    case None
    then have miss: "loadNative env ?req frames ?path s =
        Some (Returns (Inl InvalidModuleError), s)"
      using no_loader by (simp add: loadNative_unfold)
    show ?thesis
    proof (cases "is_path_specifier origPath")
      case True
      then have "loadAsFileOrDirectory env ?run (request_key frames origPath) s =
          Some (Inl err, t)"
        using res
        by (auto simp: resolve_unfold miss simp del: nested_require.simps
            split: option.splits sum.splits)
      then show ?thesis by (rule loadAsFileOrDirectory_failure_same [OF run])
    next
      case False
      then have "loadNodeModules env ?run ?path (start_dir frames origPath) s =
          Some (Inl err, t)"
        using res
        by (auto simp: resolve_unfold miss simp del: nested_require.simps
            split: option.splits sum.splits)
      then show ?thesis by (rule loadNodeModules_failure_same [OF run])
    qed
  qed
  then show ?thesis by (simp add: same_caches_def)
qed

theorem failed_require_restores_caches_witness:
  "find_loader throwing_env (filepathClean ''./bad'') = None
   \<and> (case require_call 0 throwing_env [''<native>'', ''/main.js''] ''./bad'' init_state of
         Some (Inl err, t) \<Rightarrow>
           modules t = modules init_state \<and> nodeModules t = nodeModules init_state
           \<and> events t = [Executed ''/bad.js'' 2]
       | _ \<Rightarrow> False)"
proof -
  let ?call = "require_call 0 throwing_env [''<native>'', ''/main.js''] ''./bad'' init_state"
  have no_loader: "find_loader throwing_env (filepathClean ''./bad'') = None"
    by (simp add: find_loader_def throwing_env_def mk_env_def)
  have shape: "case ?call of
      Some (Inl err, t) \<Rightarrow> events t = [Executed ''/bad.js'' 2]
    | _ \<Rightarrow> False"
    by (simp add: resolver_defs throwing_env_def)
  have "case ?call of
      Some (Inl err, t) \<Rightarrow>
        modules t = modules init_state \<and> nodeModules t = nodeModules init_state
        \<and> events t = [Executed ''/bad.js'' 2]
    | _ \<Rightarrow> False"
  proof (cases ?call rule: outcome_cases)
    case Diverges
    then show ?thesis using shape by simp
  next
    case (Fails err t)
    from failed_require_restores_caches [OF Fails no_loader]
    show ?thesis using shape Fails by simp
  next
    case (Succeeds m t)
    then show ?thesis using shape by simp
  qed
  with no_loader show ?thesis by (intro conjI)
qed

text \<open>
  A native loader that raises an exception leaves its module registered: \<open>loadNative\<close>
  stores the handle before the call and nothing removes it. The failed require of \<open>bad\<close> is
  followed by one that returns the handle.
\<close>

lemma failed_native_load_stays_cached:
  "(case require_call 0 failing_native_env [''<native>'', ''/main.js''] ''bad'' init_state of
      Some (Inl err, t) \<Rightarrow>
        err = Exception ''boom'' \<and> modules t ''bad'' = Some 0
        \<and> require_call 0 failing_native_env [''<native>'', ''/main.js''] ''bad'' t =
            Some (Inr 0, t)
    | _ \<Rightarrow> False)"
  by (simp add: resolver_defs failing_native_env_def)

end
